theory Spec2Isabelle
  imports Complex_Main
begin

section \<open>Dots and Boxes: a shallow embedding of game.js\<close>

text \<open>
  The game keeps one module-level object \<open>state\<close> and one constant object \<open>config\<close>.
  Every handler of the source reads and writes \<open>state\<close>; here each handler is a function
  from the state before to the state after. Grid indices are JavaScript numbers that
  only ever hold integers, modelled as \<open>int\<close>; pixel coordinates are modelled as exact
  rationals. Drawing on the canvas (\<open>drawBoard\<close>, \<open>updateUI\<close>) writes no field of
  \<open>state\<close> and is left out.
\<close>

subsection \<open>Numbers inside template literals\<close>

text \<open>
  A template literal such as \<open>`${edge.r1},${edge.c1}:${edge.r2},${edge.c2}`\<close> prints each
  integer in decimal, with a leading minus sign when it is negative.
\<close>

definition digit_char :: "nat \<Rightarrow> char" where
  "digit_char d = char_of (48 + d)"

fun natToString :: "nat \<Rightarrow> string" where
  "natToString n =
     (if n < 10 then [digit_char n]
      else natToString (n div 10) @ [digit_char (n mod 10)])"

declare natToString.simps [simp del]

definition numToString :: "int \<Rightarrow> string" where
  "numToString i =
     (if i < 0 then CHR ''-'' # natToString (nat (- i)) else natToString (nat i))"

text \<open>The key of an edge, \<open>"r1,c1:r2,c2"\<close>, and the key of a box, \<open>"r,c"\<close>.\<close>

definition edgeKeyOf :: "int \<Rightarrow> int \<Rightarrow> int \<Rightarrow> int \<Rightarrow> string" where
  "edgeKeyOf a b c d =
     numToString a @ '','' @ numToString b @ '':'' @ numToString c @ '','' @ numToString d"

definition boxKeyOf :: "int \<Rightarrow> int \<Rightarrow> string" where
  "boxKeyOf a b = numToString a @ '','' @ numToString b"

subsection \<open>Configuration and state\<close>

text \<open>
  Of \<open>config\<close> only the fields that the handlers read are kept; the radius, the line
  width and the colours are used by the drawing code alone.
\<close>

record config =
  rows :: int
  cols :: int
  cellSize :: rat
  gridPaddingTop :: rat
  margin :: rat

definition defaultConfig :: config where
  "defaultConfig = \<lparr>rows = 4, cols = 6, cellSize = 90, gridPaddingTop = 30, margin = 20\<rparr>"

record edge =
  r1 :: int
  c1 :: int
  r2 :: int
  c2 :: int
  isHorizontal :: bool

text \<open>
  The fields of \<open>state\<close>, without the two DOM handles \<open>canvas\<close> and \<open>ctx\<close>. The last two
  fields are the two DOM properties that \<open>endGame\<close> and \<open>resetGame\<close> write: the text of
  the element \<open>winner-text\<close> and the \<open>style.display\<close> of the element \<open>game-over\<close>;
  \<open>None\<close> means that no handler has written the property yet.

  \<open>currentPlayer\<close> is an index into \<open>players\<close>. With an empty \<open>players\<close> array the
  source computes \<open>1 % 0\<close>, which is \<open>NaN\<close>; a natural number cannot hold that, so
  every theorem that speaks about turns or scores assumes at least one player.
\<close>

record state =
  players :: "string list"
  currentPlayer :: nat
  scores :: "nat \<rightharpoonup> nat"
  edges :: "string set"
  boxes :: "string \<rightharpoonup> nat"
  highlightedEdge :: "edge option"
  gameOver :: bool
  canvasSize :: "rat \<times> rat"
  boardOffset :: "rat \<times> rat"
  winnerText :: "string option"
  gameOverDisplay :: "string option"

text \<open>The object literal of lines 21 to 33, for a given \<open>players\<close> array.\<close>

definition initialState :: "string list \<Rightarrow> state" where
  "initialState ps =
     \<lparr>players = ps, currentPlayer = 0, scores = Map.empty, edges = {},
      boxes = Map.empty, highlightedEdge = None, gameOver = False,
      canvasSize = (0, 0), boardOffset = (0, 0),
      winnerText = None, gameOverDisplay = None\<rparr>"

definition setupCanvas :: "config \<Rightarrow> state \<Rightarrow> state" where
  "setupCanvas cfg s =
     (let width = of_int (cols cfg) * cellSize cfg + margin cfg * 2;
          height = of_int (rows cfg) * cellSize cfg + margin cfg * 2 + gridPaddingTop cfg
      in s\<lparr>canvasSize := (width, height),
           boardOffset := (margin cfg, margin cfg + gridPaddingTop cfg)\<rparr>)"

text \<open>\<open>state.players.forEach((_, i) => { state.scores[i] = 0; })\<close>\<close>

definition zeroScores :: "state \<Rightarrow> state" where
  "zeroScores s =
     s\<lparr>scores := fold (\<lambda>i sc. sc(i \<mapsto> 0)) [0 ..< length (players s)] (scores s)\<rparr>"

definition initGame :: "config \<Rightarrow> state \<Rightarrow> state" where
  "initGame cfg s = setupCanvas cfg (zeroScores s)"

subsection \<open>Hit testing\<close>

text \<open>
  \<open>Math.round\<close> rounds halves up, as \<^const>\<open>round\<close> does. The two unused locals
  \<open>cellX\<close> and \<open>cellY\<close> of the source are dropped.
\<close>

definition findNearestEdge :: "config \<Rightarrow> state \<Rightarrow> rat \<Rightarrow> rat \<Rightarrow> edge option" where
  "findNearestEdge cfg s x y =
     (let gridX = round ((x - fst (boardOffset s)) / cellSize cfg);
          gridY = round ((y - snd (boardOffset s)) / cellSize cfg)
      in if \<bar>y - (snd (boardOffset s) + of_int gridY * cellSize cfg)\<bar> < 15 \<and>
            gridX \<ge> 0 \<and> gridX < cols cfg - 1 \<and>
            gridY \<ge> 0 \<and> gridY < rows cfg
         then Some \<lparr>r1 = gridY, c1 = gridX, r2 = gridY, c2 = gridX + 1, isHorizontal = True\<rparr>
         else if \<bar>x - (fst (boardOffset s) + of_int gridX * cellSize cfg)\<bar> < 15 \<and>
            gridY \<ge> 0 \<and> gridY < rows cfg - 1 \<and>
            gridX \<ge> 0 \<and> gridX < cols cfg
         then Some \<lparr>r1 = gridY, c1 = gridX, r2 = gridY + 1, c2 = gridX, isHorizontal = False\<rparr>
         else None)"

definition edgeKey :: "edge \<Rightarrow> string" where
  "edgeKey e = edgeKeyOf (r1 e) (c1 e) (r2 e) (c2 e)"

subsection \<open>Completed boxes\<close>

text \<open>A completed box \<open>{ r, c }\<close> is the pair \<open>(r, c)\<close>; the result keeps the push order.\<close>

definition checkForCompletedBoxes :: "config \<Rightarrow> state \<Rightarrow> edge \<Rightarrow> (int \<times> int) list" where
  "checkForCompletedBoxes cfg s e =
     (if isHorizontal e then
        (if r1 e > 0 \<and>
            edgeKeyOf (r1 e - 1) (c1 e) (r1 e - 1) (c2 e) \<in> edges s \<and>
            edgeKeyOf (r1 e - 1) (c1 e) (r1 e) (c1 e) \<in> edges s \<and>
            edgeKeyOf (r1 e - 1) (c2 e) (r1 e) (c2 e) \<in> edges s
         then [(r1 e - 1, c1 e)] else []) @
        (if r1 e < rows cfg - 1 \<and>
            edgeKeyOf (r1 e + 1) (c1 e) (r1 e + 1) (c2 e) \<in> edges s \<and>
            edgeKeyOf (r1 e) (c1 e) (r1 e + 1) (c1 e) \<in> edges s \<and>
            edgeKeyOf (r1 e) (c2 e) (r1 e + 1) (c2 e) \<in> edges s
         then [(r1 e, c1 e)] else [])
      else
        (if c1 e > 0 \<and>
            edgeKeyOf (r1 e) (c1 e - 1) (r2 e) (c1 e - 1) \<in> edges s \<and>
            edgeKeyOf (r1 e) (c1 e - 1) (r1 e) (c1 e) \<in> edges s \<and>
            edgeKeyOf (r2 e) (c1 e - 1) (r2 e) (c1 e) \<in> edges s
         then [(r1 e, c1 e - 1)] else []) @
        (if c1 e < cols cfg - 1 \<and>
            edgeKeyOf (r1 e) (c1 e + 1) (r2 e) (c1 e + 1) \<in> edges s \<and>
            edgeKeyOf (r1 e) (c1 e) (r1 e) (c1 e + 1) \<in> edges s \<and>
            edgeKeyOf (r2 e) (c1 e) (r2 e) (c1 e + 1) \<in> edges s
         then [(r1 e, c1 e)] else []))"

subsection \<open>End of the game\<close>

definition totalPossibleEdges :: "config \<Rightarrow> int" where
  "totalPossibleEdges cfg = (rows cfg - 1) * cols cfg + rows cfg * (cols cfg - 1)"

definition isGameOver :: "config \<Rightarrow> state \<Rightarrow> bool" where
  "isGameOver cfg s \<longleftrightarrow> int (card (edges s)) \<ge> totalPossibleEdges cfg"

text \<open>
  One round of the \<open>forEach\<close> of lines 275 to 283 on the locals
  \<open>(maxScore, winner, isTie)\<close>. A missing score is \<open>undefined\<close>, for which both
  comparisons are false.
\<close>

definition winnerStep :: "state \<Rightarrow> nat \<Rightarrow> int \<times> int \<times> bool \<Rightarrow> int \<times> int \<times> bool" where
  "winnerStep s i acc =
     (case acc of (maxScore, winner, isTie) \<Rightarrow>
        (case scores s i of
           None \<Rightarrow> (maxScore, winner, isTie)
         | Some v \<Rightarrow>
             if int v > maxScore then (int v, int i, False)
             else if int v = maxScore then (maxScore, winner, True)
             else (maxScore, winner, isTie)))"

definition findWinner :: "state \<Rightarrow> int \<times> int \<times> bool" where
  "findWinner s = fold (winnerStep s) [0 ..< length (players s)] (- 1, - 1, False)"

text \<open>\<open>state.players[winner]\<close> inside a template literal.\<close>

definition playerName :: "state \<Rightarrow> int \<Rightarrow> string" where
  "playerName s w =
     (if 0 \<le> w \<and> nat w < length (players s) then players s ! nat w else ''undefined'')"

definition tieMessage :: string where
  "tieMessage = ''It'' @ [CHR 0x27] @ ''s a tie!''"

definition winMessage :: "string \<Rightarrow> int \<Rightarrow> string" where
  "winMessage name maxScore =
     ''Player '' @ name @ '' wins with '' @ numToString maxScore @ '' points!''"

definition endGame :: "state \<Rightarrow> state" where
  "endGame s =
     (case findWinner s of (maxScore, winner, isTie) \<Rightarrow>
        s\<lparr>gameOver := True,
          winnerText := Some (if isTie then tieMessage
                              else winMessage (playerName s winner) maxScore),
          gameOverDisplay := Some ''flex''\<rparr>)"

subsection \<open>The handlers\<close>

text \<open>A mouse event together with the canvas rectangle read by the handler.\<close>

record pointer =
  clientX :: rat
  clientY :: rat
  rectLeft :: rat
  rectTop :: rat

text \<open>
  The body of the \<open>forEach\<close> of lines 121 to 124. \<open>state.scores[p]++\<close> on a missing key
  would store \<open>NaN\<close>; the key is present whenever \<open>p\<close> is the index of a player (lemma
  \<open>run_scores_dom\<close> below), and the model leaves the map alone otherwise.
\<close>

definition awardBox :: "int \<times> int \<Rightarrow> state \<Rightarrow> state" where
  "awardBox box s =
     s\<lparr>boxes := (boxes s)(boxKeyOf (fst box) (snd box) \<mapsto> currentPlayer s),
       scores := (case scores s (currentPlayer s) of
                    None \<Rightarrow> scores s
                  | Some v \<Rightarrow> (scores s)(currentPlayer s \<mapsto> v + 1))\<rparr>"

text \<open>
  Lines 110 to 135, the body of \<open>if (!state.edges.has(edgeKey))\<close>: what a click does
  once it has found an edge that is not drawn yet.
\<close>

definition drawEdge :: "config \<Rightarrow> edge \<Rightarrow> state \<Rightarrow> state" where
  "drawEdge cfg e s =
     (let s1 = s\<lparr>edges := insert (edgeKey e) (edges s)\<rparr>;
          completedBoxes = checkForCompletedBoxes cfg s1 e
      in if length completedBoxes = 0
         then s1\<lparr>currentPlayer := (currentPlayer s1 + 1) mod length (players s1)\<rparr>
         else
           let s2 = fold awardBox completedBoxes s1
           in if isGameOver cfg s2 then endGame s2 else s2)"

definition handleCanvasClick :: "config \<Rightarrow> pointer \<Rightarrow> state \<Rightarrow> state" where
  "handleCanvasClick cfg ev s =
     (if gameOver s then s
      else
        let x = clientX ev - rectLeft ev;
            y = clientY ev - rectTop ev
        in case findNearestEdge cfg s x y of
             None \<Rightarrow> s
           | Some e \<Rightarrow> if edgeKey e \<in> edges s then s else drawEdge cfg e s)"

definition handleMouseMove :: "config \<Rightarrow> pointer \<Rightarrow> state \<Rightarrow> state" where
  "handleMouseMove cfg ev s =
     (if gameOver s then s
      else
        let x = clientX ev - rectLeft ev;
            y = clientY ev - rectTop ev
        in case findNearestEdge cfg s x y of
             Some e \<Rightarrow>
               if edgeKey e \<notin> edges s then s\<lparr>highlightedEdge := Some e\<rparr>
               else s\<lparr>highlightedEdge := None\<rparr>
           | None \<Rightarrow> s\<lparr>highlightedEdge := None\<rparr>)"

definition resetGame :: "state \<Rightarrow> state" where
  "resetGame s =
     zeroScores
       (s\<lparr>edges := {}, boxes := Map.empty, currentPlayer := 0, gameOver := False,
          highlightedEdge := None\<rparr>)
     \<lparr>gameOverDisplay := Some ''none''\<rparr>"

subsection \<open>Sessions\<close>

text \<open>
  The listeners installed by \<open>setupEventListeners\<close> and at the end of the file: a click
  or a mouse move on the canvas, the two restart buttons and the R key (all three call
  \<open>resetGame\<close>), and a resize of the window.
\<close>

datatype event = Click pointer | MouseMove pointer | Reset | Resize

fun step :: "config \<Rightarrow> event \<Rightarrow> state \<Rightarrow> state" where
  "step cfg (Click ev) s = handleCanvasClick cfg ev s"
| "step cfg (MouseMove ev) s = handleMouseMove cfg ev s"
| "step cfg Reset s = resetGame s"
| "step cfg Resize s = setupCanvas cfg s"

text \<open>
  The state after the page has loaded (\<open>DOMContentLoaded\<close> runs \<open>initGame\<close>) and the
  listed events have been handled, in order.
\<close>

definition run :: "config \<Rightarrow> string list \<Rightarrow> event list \<Rightarrow> state" where
  "run cfg ps evs = fold (step cfg) evs (initGame cfg (initialState ps))"

text \<open>
  Creating a session is loading the page: \<open>initGame\<close> runs on the object literal.
  The result type has room for a refusal, but the source checks neither the grid nor
  the players, so no path of it ends in one.
\<close>

datatype error = ConfigurationError

definition createSession :: "config \<Rightarrow> string list \<Rightarrow> error + state" where
  "createSession cfg ps = Inr (initGame cfg (initialState ps))"

subsection \<open>The grid\<close>

text \<open>
  The edge keys that \<open>drawBoard\<close> looks up, in the order of its two nested loops
  (lines 324 to 331 for the horizontal edges, lines 377 to 384 for the vertical ones).
  These are the legal edges of the grid.
\<close>

definition horizontalKeys :: "config \<Rightarrow> string list" where
  "horizontalKeys cfg =
     concat (map (\<lambda>i. map (\<lambda>j. edgeKeyOf i j i (j + 1)) [0 .. cols cfg - 2])
                 [0 .. rows cfg - 1])"

definition verticalKeys :: "config \<Rightarrow> string list" where
  "verticalKeys cfg =
     concat (map (\<lambda>i. map (\<lambda>j. edgeKeyOf i j (i + 1) j) [0 .. cols cfg - 1])
                 [0 .. rows cfg - 2])"

definition legalEdgeKeys :: "config \<Rightarrow> string list" where
  "legalEdgeKeys cfg = horizontalKeys cfg @ verticalKeys cfg"

text \<open>
  A cell is named by its top left dot. Its four sides, as keys: top, bottom, left,
  right. These are the keys that \<open>checkForCompletedBoxes\<close> builds for the boxes next
  to an edge.
\<close>

definition isCell :: "config \<Rightarrow> int \<Rightarrow> int \<Rightarrow> bool" where
  "isCell cfg i j \<longleftrightarrow> 0 \<le> i \<and> i < rows cfg - 1 \<and> 0 \<le> j \<and> j < cols cfg - 1"

definition cellEdgeKeys :: "int \<Rightarrow> int \<Rightarrow> string list" where
  "cellEdgeKeys i j =
     [edgeKeyOf i j i (j + 1), edgeKeyOf (i + 1) j (i + 1) (j + 1),
      edgeKeyOf i j (i + 1) j, edgeKeyOf i (j + 1) (i + 1) (j + 1)]"

definition cellComplete :: "state \<Rightarrow> int \<Rightarrow> int \<Rightarrow> bool" where
  "cellComplete s i j \<longleftrightarrow> set (cellEdgeKeys i j) \<subseteq> edges s"

text \<open>The edges that \<open>findNearestEdge\<close> can return.\<close>

definition legalEdge :: "config \<Rightarrow> edge \<Rightarrow> bool" where
  "legalEdge cfg e \<longleftrightarrow>
     (if isHorizontal e
      then 0 \<le> r1 e \<and> r1 e < rows cfg \<and> 0 \<le> c1 e \<and> c1 e < cols cfg - 1 \<and>
           r2 e = r1 e \<and> c2 e = c1 e + 1
      else 0 \<le> r1 e \<and> r1 e < rows cfg - 1 \<and> 0 \<le> c1 e \<and> c1 e < cols cfg \<and>
           r2 e = r1 e + 1 \<and> c2 e = c1 e)"

subsection \<open>Concrete sessions\<close>

text \<open>
  Grids of two rows of dots with two and with three columns, drawn with the sizes of
  the source, and a pointer at a place of the canvas. The board starts at \<open>(20, 50)\<close>
  and the dots are 90 pixels apart.
\<close>

definition grid2x2 :: config where
  "grid2x2 = \<lparr>rows = 2, cols = 2, cellSize = 90, gridPaddingTop = 30, margin = 20\<rparr>"

definition grid2x3 :: config where
  "grid2x3 = \<lparr>rows = 2, cols = 3, cellSize = 90, gridPaddingTop = 30, margin = 20\<rparr>"

definition pointerAt :: "rat \<Rightarrow> rat \<Rightarrow> pointer" where
  "pointerAt x y = \<lparr>clientX = x, clientY = y, rectLeft = 0, rectTop = 0\<rparr>"

text \<open>The four edges of the single cell: top, bottom, left, right.\<close>

definition fourClicks :: "event list" where
  "fourClicks =
     [Click (pointerAt 20 50), Click (pointerAt 20 140),
      Click (pointerAt 20 80), Click (pointerAt 110 80)]"

text \<open>
  Seven clicks that fill the grid of two cells: top and bottom of the left cell, its
  left side, the top of the right cell, the middle edge (which completes the left
  cell), the bottom of the right cell and its right side (which completes the right
  cell). In \<open>middleEarly\<close> the middle edge is drawn one move earlier.
\<close>

definition middleLate :: "event list" where
  "middleLate =
     [Click (pointerAt 20 50), Click (pointerAt 20 140), Click (pointerAt 20 80),
      Click (pointerAt 110 50), Click (pointerAt 110 80), Click (pointerAt 110 140),
      Click (pointerAt 200 80)]"

definition middleEarly :: "event list" where
  "middleEarly =
     [Click (pointerAt 20 50), Click (pointerAt 20 140), Click (pointerAt 20 80),
      Click (pointerAt 110 80), Click (pointerAt 110 50), Click (pointerAt 110 140),
      Click (pointerAt 200 80)]"

text \<open>A grid with a single dot, and one with a single row of two dots.\<close>

definition grid1x1 :: config where
  "grid1x1 = \<lparr>rows = 1, cols = 1, cellSize = 90, gridPaddingTop = 30, margin = 20\<rparr>"

definition grid1x2 :: config where
  "grid1x2 = \<lparr>rows = 1, cols = 2, cellSize = 90, gridPaddingTop = 30, margin = 20\<rparr>"

subsection \<open>Winners, as the specification defines them\<close>

text \<open>
  The highest score among the players and the players who have it, in index order.
  Both read \<open>state.scores\<close>; a player without a score counts as 0, which does not
  happen in a session (lemma \<open>run_scores_dom\<close>).
\<close>

definition scoreOf :: "state \<Rightarrow> nat \<Rightarrow> nat" where
  "scoreOf s i = (case scores s i of None \<Rightarrow> 0 | Some v \<Rightarrow> v)"

definition topScore :: "state \<Rightarrow> nat" where
  "topScore s = fold max (map (scoreOf s) [0 ..< length (players s)]) 0"

definition winners :: "state \<Rightarrow> nat list" where
  "winners s = filter (\<lambda>i. scoreOf s i = topScore s) [0 ..< length (players s)]"

text \<open>
  What the locals \<open>(maxScore, winner, isTie)\<close> hold after the first \<open>k\<close> rounds of the
  loop of \<open>endGame\<close>.
\<close>

definition scanned :: "state \<Rightarrow> nat \<Rightarrow> int \<times> int \<times> bool \<Rightarrow> bool" where
  "scanned s k acc \<longleftrightarrow>
     (case acc of (m, w, t) \<Rightarrow>
        (\<forall>i<k. int (scoreOf s i) \<le> m) \<and>
        (k = 0 \<longrightarrow> m = - 1 \<and> \<not> t) \<and>
        (0 < k \<longrightarrow> 0 \<le> w \<and> nat w < k \<and> int (scoreOf s (nat w)) = m) \<and>
        (t \<longleftrightarrow> (\<exists>i<k. i \<noteq> nat w \<and> int (scoreOf s i) = m)))"

subsection \<open>The invariant of a session\<close>

text \<open>
  What every handler keeps: the players never change, only legal edges are drawn, the
  owned boxes are the complete cells, the turn is a player's index, every player has
  a score, and the scores add up to the number of owned boxes.
\<close>

definition scoreSum :: "state \<Rightarrow> nat" where
  "scoreSum s = (\<Sum>i<length (players s). the (scores s i))"

definition gameInv :: "config \<Rightarrow> string list \<Rightarrow> state \<Rightarrow> bool" where
  "gameInv cfg ps s \<longleftrightarrow>
     players s = ps \<and>
     edges s \<subseteq> set (legalEdgeKeys cfg) \<and>
     dom (boxes s) = {boxKeyOf i j |i j. isCell cfg i j \<and> cellComplete s i j} \<and>
     (ps \<noteq> [] \<longrightarrow> currentPlayer s < length ps) \<and>
     dom (scores s) = {..<length ps} \<and>
     (ps \<noteq> [] \<longrightarrow> scoreSum s = card (dom (boxes s)))"

section \<open>Properties\<close>

subsection \<open>Keys are injective\<close>

lemma of_char_digit_char: "d < 10 \<Longrightarrow> of_char (digit_char d) = 48 + d"
  by (simp add: digit_char_def)

lemma digit_char_inj: "d < 10 \<Longrightarrow> d' < 10 \<Longrightarrow> digit_char d = digit_char d' \<Longrightarrow> d = d'"
proof -
  assume a: "d < 10" "d' < 10" "digit_char d = digit_char d'"
  from a(3) have "(of_char (digit_char d) :: nat) = of_char (digit_char d')"
    by (rule arg_cong)
  then show ?thesis
    unfolding of_char_digit_char [OF a(1)] of_char_digit_char [OF a(2)] by simp
qed

lemma digit_char_not_sep:
  assumes "d < 10"
  shows "digit_char d \<noteq> CHR '',''" "digit_char d \<noteq> CHR '':''" "digit_char d \<noteq> CHR ''-''"
proof -
  have e: "(of_char (digit_char d) :: nat) = 48 + d" using assms by (rule of_char_digit_char)
  show "digit_char d \<noteq> CHR '',''" using e by auto
  show "digit_char d \<noteq> CHR '':''" using e assms by auto
  show "digit_char d \<noteq> CHR ''-''" using e by auto
qed

lemma natToString_not_Nil: "natToString n \<noteq> []"
  by (subst natToString.simps) simp

lemma natToString_digits:
  "c \<in> set (natToString n) \<Longrightarrow> \<exists>d<10. c = digit_char d"
proof (induction n rule: natToString.induct)
  case (1 n)
  show ?case
  proof (cases "n < 10")
    case True
    with "1.prems" show ?thesis by (subst (asm) natToString.simps) auto
  next
    case False
    from "1.prems" have "c \<in> set (natToString (n div 10)) \<or> c = digit_char (n mod 10)"
      using False by (subst (asm) natToString.simps) auto
    then show ?thesis
    proof
      assume "c \<in> set (natToString (n div 10))"
      with "1.IH" False show ?thesis by blast
    next
      assume "c = digit_char (n mod 10)"
      moreover have "n mod 10 < 10" by simp
      ultimately show ?thesis by blast
    qed
  qed
qed

lemma natToString_no_sep:
  "CHR '','' \<notin> set (natToString n)" "CHR '':'' \<notin> set (natToString n)"
  "CHR ''-'' \<notin> set (natToString n)"
proof -
  show "CHR '','' \<notin> set (natToString n)"
  proof
    assume "CHR '','' \<in> set (natToString n)"
    then obtain d where "d < 10" "CHR '','' = digit_char d"
      using natToString_digits by blast
    then show False using digit_char_not_sep(1) [of d] by simp
  qed
  show "CHR '':'' \<notin> set (natToString n)"
  proof
    assume "CHR '':'' \<in> set (natToString n)"
    then obtain d where "d < 10" "CHR '':'' = digit_char d"
      using natToString_digits by blast
    then show False using digit_char_not_sep(2) [of d] by simp
  qed
  show "CHR ''-'' \<notin> set (natToString n)"
  proof
    assume "CHR ''-'' \<in> set (natToString n)"
    then obtain d where "d < 10" "CHR ''-'' = digit_char d"
      using natToString_digits by blast
    then show False using digit_char_not_sep(3) [of d] by simp
  qed
qed

lemma natToString_inj: "natToString n = natToString m \<Longrightarrow> n = m"
proof (induction n arbitrary: m rule: natToString.induct)
  case (1 n)
  show ?case
  proof (cases "n < 10")
    case n: True
    show ?thesis
    proof (cases "m < 10")
      case True
      with n "1.prems" have "digit_char n = digit_char m"
        by (simp add: natToString.simps [of n] natToString.simps [of m])
      with n True show ?thesis by (rule digit_char_inj)
    next
      case False
      with n "1.prems" have "natToString (m div 10) = []"
        by (simp add: natToString.simps [of n] natToString.simps [of m] Cons_eq_append_conv)
      then show ?thesis by (simp add: natToString_not_Nil)
    qed
  next
    case n: False
    show ?thesis
    proof (cases "m < 10")
      case True
      with n "1.prems" have "natToString (n div 10) = []"
        by (simp add: natToString.simps [of n] natToString.simps [of m] append_eq_Cons_conv)
      then show ?thesis by (simp add: natToString_not_Nil)
    next
      case False
      with n "1.prems" have e: "natToString (n div 10) = natToString (m div 10)"
         and d: "digit_char (n mod 10) = digit_char (m mod 10)"
        by (simp_all add: natToString.simps [of n] natToString.simps [of m])
      from "1.IH" [OF n e] have "n div 10 = m div 10" .
      moreover from d have "n mod 10 = m mod 10" by (intro digit_char_inj) simp_all
      ultimately show ?thesis by (metis div_mult_mod_eq)
    qed
  qed
qed

lemma numToString_no_sep:
  "CHR '','' \<notin> set (numToString i)" "CHR '':'' \<notin> set (numToString i)"
  by (simp_all add: numToString_def natToString_no_sep)

lemma numToString_inj: "numToString i = numToString j \<Longrightarrow> i = j"
proof -
  assume e: "numToString i = numToString j"
  have hd_no: "natToString n \<noteq> CHR ''-'' # xs" "CHR ''-'' # xs \<noteq> natToString n" for n xs
  proof -
    show "natToString n \<noteq> CHR ''-'' # xs"
    proof
      assume "natToString n = CHR ''-'' # xs"
      then have "CHR ''-'' \<in> set (natToString n)" by simp
      then show False by (simp add: natToString_no_sep)
    qed
    then show "CHR ''-'' # xs \<noteq> natToString n" by (rule not_sym)
  qed
  show ?thesis
  proof (cases "i < 0")
    case i: True
    show ?thesis
    proof (cases "j < 0")
      case True
      with i e have "nat (- i) = nat (- j)" by (simp add: numToString_def natToString_inj)
      with i True show ?thesis by simp
    next
      case False
      with i e show ?thesis by (simp add: numToString_def hd_no)
    qed
  next
    case i: False
    show ?thesis
    proof (cases "j < 0")
      case True
      with i e show ?thesis by (simp add: numToString_def hd_no)
    next
      case False
      with i e have "nat i = nat j" by (simp add: numToString_def natToString_inj)
      with i False show ?thesis by simp
    qed
  qed
qed

lemma split_at_sep:
  "c \<notin> set a \<Longrightarrow> c \<notin> set a' \<Longrightarrow> a @ c # b = a' @ c # b' \<Longrightarrow> a = a' \<and> b = b'"
proof (induction a arbitrary: a')
  case Nil
  then show ?case by (cases a') auto
next
  case (Cons x xs)
  then show ?case by (cases a') auto
qed

lemma boxKeyOf_eq_iff [simp]: "boxKeyOf a b = boxKeyOf a' b' \<longleftrightarrow> a = a' \<and> b = b'"
proof
  assume "boxKeyOf a b = boxKeyOf a' b'"
  then have "numToString a = numToString a' \<and> numToString b = numToString b'"
    unfolding boxKeyOf_def using split_at_sep [OF numToString_no_sep(1) numToString_no_sep(1)]
    by simp
  then show "a = a' \<and> b = b'" by (simp add: numToString_inj)
qed simp

lemma edgeKeyOf_eq_iff [simp]:
  "edgeKeyOf a b c d = edgeKeyOf a' b' c' d' \<longleftrightarrow> a = a' \<and> b = b' \<and> c = c' \<and> d = d'"
proof
  assume e: "edgeKeyOf a b c d = edgeKeyOf a' b' c' d'"
  from e have 1: "numToString a = numToString a'"
    and r1: "numToString b @ CHR '':'' # numToString c @ CHR '','' # numToString d =
         numToString b' @ CHR '':'' # numToString c' @ CHR '','' # numToString d'"
    unfolding edgeKeyOf_def
    using split_at_sep [OF numToString_no_sep(1) [of a] numToString_no_sep(1) [of a']]
    by simp_all
  from r1 have 2: "numToString b = numToString b'"
    and r2: "numToString c @ CHR '','' # numToString d = numToString c' @ CHR '','' # numToString d'"
    using split_at_sep [OF numToString_no_sep(2) [of b] numToString_no_sep(2) [of b']]
    by simp_all
  from r2 have 3: "numToString c = numToString c'" and 4: "numToString d = numToString d'"
    using split_at_sep [OF numToString_no_sep(1) [of c] numToString_no_sep(1) [of c']]
    by simp_all
  from 1 2 3 4 show "a = a' \<and> b = b' \<and> c = c' \<and> d = d'" by (simp add: numToString_inj)
qed simp

subsection \<open>Legal edges and cells\<close>

lemma horizontalKeys_set:
  "set (horizontalKeys cfg) =
     (\<lambda>(i, j). edgeKeyOf i j i (j + 1)) ` ({0 .. rows cfg - 1} \<times> {0 .. cols cfg - 2})"
  by (auto simp: horizontalKeys_def)

lemma verticalKeys_set:
  "set (verticalKeys cfg) =
     (\<lambda>(i, j). edgeKeyOf i j (i + 1) j) ` ({0 .. rows cfg - 2} \<times> {0 .. cols cfg - 1})"
  by (auto simp: verticalKeys_def)

lemma card_horizontalKeys:
  "card (set (horizontalKeys cfg)) = nat (rows cfg) * nat (cols cfg - 1)"
proof -
  have "inj_on (\<lambda>(i, j). edgeKeyOf i j i (j + 1)) ({0 .. rows cfg - 1} \<times> {0 .. cols cfg - 2})"
    by (auto simp: inj_on_def)
  then show ?thesis
    by (simp add: horizontalKeys_set card_image card_cartesian_product)
qed

lemma card_verticalKeys:
  "card (set (verticalKeys cfg)) = nat (rows cfg - 1) * nat (cols cfg)"
proof -
  have "inj_on (\<lambda>(i, j). edgeKeyOf i j (i + 1) j) ({0 .. rows cfg - 2} \<times> {0 .. cols cfg - 1})"
    by (auto simp: inj_on_def)
  then show ?thesis
    by (simp add: verticalKeys_set card_image card_cartesian_product)
qed

lemma horizontal_vertical_disjoint:
  "set (horizontalKeys cfg) \<inter> set (verticalKeys cfg) = {}"
  by (auto simp: horizontalKeys_set verticalKeys_set)

lemma card_legalEdgeKeys:
  assumes "1 \<le> rows cfg" "1 \<le> cols cfg"
  shows "int (card (set (legalEdgeKeys cfg))) = totalPossibleEdges cfg"
proof -
  have "card (set (legalEdgeKeys cfg)) =
          nat (rows cfg) * nat (cols cfg - 1) + nat (rows cfg - 1) * nat (cols cfg)"
    unfolding legalEdgeKeys_def set_append
    by (simp add: card_Un_disjoint horizontal_vertical_disjoint
        card_horizontalKeys card_verticalKeys)
  with assms show ?thesis
    by (simp add: totalPossibleEdges_def)
qed

lemma legalEdgeKeys_iff:
  "k \<in> set (legalEdgeKeys cfg) \<longleftrightarrow>
     (\<exists>i j. 0 \<le> i \<and> i < rows cfg \<and> 0 \<le> j \<and> j < cols cfg - 1 \<and> k = edgeKeyOf i j i (j + 1)) \<or>
     (\<exists>i j. 0 \<le> i \<and> i < rows cfg - 1 \<and> 0 \<le> j \<and> j < cols cfg \<and> k = edgeKeyOf i j (i + 1) j)"
  unfolding legalEdgeKeys_def set_append Un_iff horizontalKeys_set verticalKeys_set
  by (auto simp: image_iff)

lemma legalEdge_key:
  "legalEdge cfg e \<Longrightarrow> edgeKey e \<in> set (legalEdgeKeys cfg)"
  unfolding legalEdgeKeys_iff edgeKey_def legalEdge_def
  by (auto split: if_splits)

lemma findNearestEdge_legal:
  "findNearestEdge cfg s x y = Some e \<Longrightarrow> legalEdge cfg e"
  by (auto simp: findNearestEdge_def legalEdge_def Let_def split: if_splits)

lemma cell_edges_legal:
  "isCell cfg i j \<Longrightarrow> set (cellEdgeKeys i j) \<subseteq> set (legalEdgeKeys cfg)"
  unfolding isCell_def cellEdgeKeys_def
  by (auto simp: legalEdgeKeys_iff)

lemma legalEdge_has_cell:
  assumes "legalEdge cfg e" "2 \<le> rows cfg" "2 \<le> cols cfg"
  shows "\<exists>i j. isCell cfg i j \<and> edgeKey e \<in> set (cellEdgeKeys i j)"
proof (cases "isHorizontal e")
  case True
  show ?thesis
  proof (cases "r1 e < rows cfg - 1")
    case True
    with assms \<open>isHorizontal e\<close> have "isCell cfg (r1 e) (c1 e)"
      "edgeKey e \<in> set (cellEdgeKeys (r1 e) (c1 e))"
      by (simp_all add: legalEdge_def isCell_def cellEdgeKeys_def edgeKey_def)
    then show ?thesis by blast
  next
    case False
    with assms \<open>isHorizontal e\<close> have "isCell cfg (r1 e - 1) (c1 e)"
      "edgeKey e \<in> set (cellEdgeKeys (r1 e - 1) (c1 e))"
      by (simp_all add: legalEdge_def isCell_def cellEdgeKeys_def edgeKey_def)
    then show ?thesis by blast
  qed
next
  case False
  show ?thesis
  proof (cases "c1 e < cols cfg - 1")
    case True
    with assms \<open>\<not> isHorizontal e\<close> have "isCell cfg (r1 e) (c1 e)"
      "edgeKey e \<in> set (cellEdgeKeys (r1 e) (c1 e))"
      by (simp_all add: legalEdge_def isCell_def cellEdgeKeys_def edgeKey_def)
    then show ?thesis by blast
  next
    case c: False
    with assms \<open>\<not> isHorizontal e\<close> have "isCell cfg (r1 e) (c1 e - 1)"
      "edgeKey e \<in> set (cellEdgeKeys (r1 e) (c1 e - 1))"
      by (simp_all add: legalEdge_def isCell_def cellEdgeKeys_def edgeKey_def)
    then show ?thesis by blast
  qed
qed

lemma completed_iff:
  assumes "legalEdge cfg e" "edgeKey e \<in> edges s"
  shows "(i, j) \<in> set (checkForCompletedBoxes cfg s e) \<longleftrightarrow>
           isCell cfg i j \<and> edgeKey e \<in> set (cellEdgeKeys i j) \<and> cellComplete s i j"
proof (cases "isHorizontal e")
  case True
  with assms show ?thesis
    unfolding checkForCompletedBoxes_def legalEdge_def isCell_def cellEdgeKeys_def
      cellComplete_def edgeKey_def
    by (auto split: if_splits)
next
  case False
  with assms show ?thesis
    unfolding checkForCompletedBoxes_def legalEdge_def isCell_def cellEdgeKeys_def
      cellComplete_def edgeKey_def
    by (auto split: if_splits)
qed

lemma completed_distinct:
  "distinct (checkForCompletedBoxes cfg s e)"
  by (auto simp: checkForCompletedBoxes_def)

subsection \<open>Drawing an edge, field by field\<close>

lemma awardBox_fields [simp]:
  "edges (awardBox b s) = edges s"
  "players (awardBox b s) = players s"
  "currentPlayer (awardBox b s) = currentPlayer s"
  "gameOver (awardBox b s) = gameOver s"
  "highlightedEdge (awardBox b s) = highlightedEdge s"
  "boardOffset (awardBox b s) = boardOffset s"
  "canvasSize (awardBox b s) = canvasSize s"
  "winnerText (awardBox b s) = winnerText s"
  "gameOverDisplay (awardBox b s) = gameOverDisplay s"
  by (simp_all add: awardBox_def)

lemma fold_awardBox_fields [simp]:
  "edges (fold awardBox bs s) = edges s"
  "players (fold awardBox bs s) = players s"
  "currentPlayer (fold awardBox bs s) = currentPlayer s"
  "gameOver (fold awardBox bs s) = gameOver s"
  "highlightedEdge (fold awardBox bs s) = highlightedEdge s"
  "boardOffset (fold awardBox bs s) = boardOffset s"
  "canvasSize (fold awardBox bs s) = canvasSize s"
  "winnerText (fold awardBox bs s) = winnerText s"
  "gameOverDisplay (fold awardBox bs s) = gameOverDisplay s"
  by (induction bs arbitrary: s; simp)+

lemma fold_awardBox_boxes:
  "boxes (fold awardBox bs s) k =
     (if k \<in> (\<lambda>b. boxKeyOf (fst b) (snd b)) ` set bs then Some (currentPlayer s) else boxes s k)"
proof (induction bs arbitrary: s)
  case Nil
  show ?case by simp
next
  case (Cons b bs)
  show ?case
    by (simp add: Cons.IH) (simp add: awardBox_def)
qed

lemma fold_awardBox_dom:
  "dom (boxes (fold awardBox bs s)) = dom (boxes s) \<union> (\<lambda>b. boxKeyOf (fst b) (snd b)) ` set bs"
  by (auto simp: dom_def fold_awardBox_boxes)

lemma fold_awardBox_scores_None:
  "scores s (currentPlayer s) = None \<Longrightarrow> scores (fold awardBox bs s) = scores s"
proof (induction bs arbitrary: s)
  case Nil
  show ?case by simp
next
  case (Cons b bs)
  have 1: "scores (awardBox b s) = scores s" using Cons.prems by (simp add: awardBox_def)
  with Cons.prems have "scores (awardBox b s) (currentPlayer (awardBox b s)) = None" by simp
  from Cons.IH [OF this] 1 show ?case by simp
qed

lemma fold_awardBox_scores:
  "scores s (currentPlayer s) = Some v \<Longrightarrow>
   scores (fold awardBox bs s) = (scores s)(currentPlayer s \<mapsto> v + length bs)"
proof (induction bs arbitrary: s v)
  case Nil
  then show ?case by (simp add: map_upd_triv)
next
  case (Cons b bs)
  have 1: "scores (awardBox b s) = (scores s)(currentPlayer s \<mapsto> v + 1)"
    using Cons.prems by (simp add: awardBox_def)
  then have "scores (awardBox b s) (currentPlayer (awardBox b s)) = Some (v + 1)" by simp
  from Cons.IH [OF this] 1 show ?case by (simp add: fun_eq_iff)
qed

lemma endGame_fields [simp]:
  "edges (endGame s) = edges s"
  "players (endGame s) = players s"
  "currentPlayer (endGame s) = currentPlayer s"
  "scores (endGame s) = scores s"
  "boxes (endGame s) = boxes s"
  "gameOver (endGame s) = True"
  "highlightedEdge (endGame s) = highlightedEdge s"
  "boardOffset (endGame s) = boardOffset s"
  "canvasSize (endGame s) = canvasSize s"
  by (simp_all add: endGame_def split: prod.splits)

text \<open>The fields of the state after an edge has been drawn.\<close>

lemma drawEdge_edges [simp]: "edges (drawEdge cfg e s) = insert (edgeKey e) (edges s)"
  by (simp add: drawEdge_def Let_def)

lemma drawEdge_players [simp]: "players (drawEdge cfg e s) = players s"
  by (simp add: drawEdge_def Let_def)

lemma drawEdge_frame [simp]:
  "highlightedEdge (drawEdge cfg e s) = highlightedEdge s"
  "boardOffset (drawEdge cfg e s) = boardOffset s"
  "canvasSize (drawEdge cfg e s) = canvasSize s"
  by (simp_all add: drawEdge_def Let_def)

lemma drawEdge_currentPlayer:
  "currentPlayer (drawEdge cfg e s) =
     (if checkForCompletedBoxes cfg (s\<lparr>edges := insert (edgeKey e) (edges s)\<rparr>) e = []
      then (currentPlayer s + 1) mod length (players s) else currentPlayer s)"
  by (simp add: drawEdge_def Let_def)

lemma drawEdge_boxes:
  "boxes (drawEdge cfg e s) k =
     (if k \<in> (\<lambda>b. boxKeyOf (fst b) (snd b)) `
              set (checkForCompletedBoxes cfg (s\<lparr>edges := insert (edgeKey e) (edges s)\<rparr>) e)
      then Some (currentPlayer s) else boxes s k)"
  by (simp add: drawEdge_def Let_def fold_awardBox_boxes)

lemma drawEdge_dom_boxes:
  "dom (boxes (drawEdge cfg e s)) =
     dom (boxes s) \<union> (\<lambda>b. boxKeyOf (fst b) (snd b)) `
        set (checkForCompletedBoxes cfg (s\<lparr>edges := insert (edgeKey e) (edges s)\<rparr>) e)"
  by (auto simp: dom_def drawEdge_boxes)

lemma drawEdge_scores:
  "scores s (currentPlayer s) = Some v \<Longrightarrow>
   scores (drawEdge cfg e s) =
     (scores s)(currentPlayer s \<mapsto>
        v + length (checkForCompletedBoxes cfg (s\<lparr>edges := insert (edgeKey e) (edges s)\<rparr>) e))"
  by (simp add: drawEdge_def Let_def fold_awardBox_scores map_upd_triv)

lemma drawEdge_scores_None:
  "scores s (currentPlayer s) = None \<Longrightarrow> scores (drawEdge cfg e s) = scores s"
  by (simp add: drawEdge_def Let_def fold_awardBox_scores_None)

lemma drawEdge_gameOver:
  "gameOver (drawEdge cfg e s) \<longleftrightarrow>
     (if checkForCompletedBoxes cfg (s\<lparr>edges := insert (edgeKey e) (edges s)\<rparr>) e = []
      then gameOver s
      else gameOver s \<or> int (card (insert (edgeKey e) (edges s))) \<ge> totalPossibleEdges cfg)"
  by (simp add: drawEdge_def Let_def isGameOver_def)

subsection \<open>Drawing an edge keeps the invariant\<close>

lemma finite_cells: "finite {boxKeyOf i j |i j. isCell cfg i j \<and> P i j}"
proof -
  have "{boxKeyOf i j |i j. isCell cfg i j \<and> P i j} \<subseteq>
          (\<lambda>(i, j). boxKeyOf i j) ` ({0 .. rows cfg - 2} \<times> {0 .. cols cfg - 2})"
    by (auto simp: isCell_def image_iff)
  then show ?thesis by (rule finite_subset) simp
qed

lemma gameInv_finite_boxes: "gameInv cfg ps s \<Longrightarrow> finite (dom (boxes s))"
  by (simp add: gameInv_def finite_cells)

lemma gameInv_finite_edges: "gameInv cfg ps s \<Longrightarrow> finite (edges s)"
  unfolding gameInv_def by (meson finite_subset finite_set)

lemma cellComplete_drawEdge:
  assumes "edgeKey e \<notin> edges s"
  shows "cellComplete (drawEdge cfg e s) i j \<longleftrightarrow>
           cellComplete s i j \<or>
           edgeKey e \<in> set (cellEdgeKeys i j) \<and>
           cellComplete (s\<lparr>edges := insert (edgeKey e) (edges s)\<rparr>) i j"
  using assms by (auto simp: cellComplete_def)

lemma drawEdge_dom_boxes_inv:
  assumes inv: "gameInv cfg ps s" and legal: "legalEdge cfg e" and new: "edgeKey e \<notin> edges s"
  shows "dom (boxes (drawEdge cfg e s)) =
           {boxKeyOf i j |i j. isCell cfg i j \<and> cellComplete (drawEdge cfg e s) i j}"
proof -
  let ?s1 = "s\<lparr>edges := insert (edgeKey e) (edges s)\<rparr>"
  have in1: "edgeKey e \<in> edges ?s1" by simp
  have old: "dom (boxes s) = {boxKeyOf i j |i j. isCell cfg i j \<and> cellComplete s i j}"
    using inv by (simp add: gameInv_def)
  have "(\<lambda>b. boxKeyOf (fst b) (snd b)) ` set (checkForCompletedBoxes cfg ?s1 e) =
          {boxKeyOf i j |i j. isCell cfg i j \<and> edgeKey e \<in> set (cellEdgeKeys i j) \<and>
             cellComplete ?s1 i j}"
    (is "?L = ?R")
  proof (rule set_eqI)
    fix k
    have "k \<in> ?L \<longleftrightarrow> (\<exists>i j. (i, j) \<in> set (checkForCompletedBoxes cfg ?s1 e) \<and> k = boxKeyOf i j)"
      by (force simp: image_iff)
    also have "\<dots> \<longleftrightarrow> k \<in> ?R"
      unfolding completed_iff [OF legal in1] by blast
    finally show "k \<in> ?L \<longleftrightarrow> k \<in> ?R" .
  qed
  then show ?thesis
    unfolding drawEdge_dom_boxes old cellComplete_drawEdge [OF new] by blast
qed

lemma drawEdge_card_boxes:
  assumes inv: "gameInv cfg ps s" and legal: "legalEdge cfg e" and new: "edgeKey e \<notin> edges s"
  shows "card (dom (boxes (drawEdge cfg e s))) =
           card (dom (boxes s)) +
           length (checkForCompletedBoxes cfg (s\<lparr>edges := insert (edgeKey e) (edges s)\<rparr>) e)"
proof -
  let ?s1 = "s\<lparr>edges := insert (edgeKey e) (edges s)\<rparr>"
  let ?cb = "checkForCompletedBoxes cfg ?s1 e"
  let ?bk = "\<lambda>b. boxKeyOf (fst b) (snd b)"
  have in1: "edgeKey e \<in> edges ?s1" by simp
  have old: "dom (boxes s) = {boxKeyOf i j |i j. isCell cfg i j \<and> cellComplete s i j}"
    using inv by (simp add: gameInv_def)
  have inj: "inj_on ?bk (set ?cb)"
    by (auto simp: inj_on_def)
  have disj: "dom (boxes s) \<inter> ?bk ` set ?cb = {}"
  proof (rule ccontr)
    assume "dom (boxes s) \<inter> ?bk ` set ?cb \<noteq> {}"
    then obtain k where k: "k \<in> dom (boxes s)" "k \<in> ?bk ` set ?cb" by blast
    from k(2) obtain i j where ij: "(i, j) \<in> set ?cb" "k = boxKeyOf i j" by auto
    from k(1) ij(2) have "cellComplete s i j" unfolding old by auto
    moreover from ij(1) have "edgeKey e \<in> set (cellEdgeKeys i j)"
      unfolding completed_iff [OF legal in1] by simp
    ultimately show False using new by (auto simp: cellComplete_def)
  qed
  have "card (dom (boxes (drawEdge cfg e s))) = card (dom (boxes s)) + card (?bk ` set ?cb)"
    unfolding drawEdge_dom_boxes
    by (rule card_Un_disjoint [OF gameInv_finite_boxes [OF inv] _ disj]) simp
  also have "card (?bk ` set ?cb) = length ?cb"
    by (simp add: card_image [OF inj] distinct_card completed_distinct)
  finally show ?thesis .
qed

lemma scoreSum_upd:
  assumes "p < length (players s)" "scores s p = Some v"
    and "players s' = players s" "scores s' = (scores s)(p \<mapsto> v + m)"
  shows "scoreSum s' = scoreSum s + m"
proof -
  let ?n = "length (players s)"
  have "scoreSum s' = (\<Sum>i<?n. if i = p then v + m else the (scores s i))"
    unfolding scoreSum_def assms(3,4) by (rule sum.cong) simp_all
  also have "\<dots> = (\<Sum>i<?n. the (scores s i) + (if i = p then m else 0))"
    using assms(2) by (intro sum.cong) simp_all
  also have "\<dots> = scoreSum s + m"
    using assms(1) by (simp add: sum.distrib scoreSum_def)
  finally show ?thesis .
qed

lemma drawEdge_inv:
  assumes inv: "gameInv cfg ps s" and legal: "legalEdge cfg e" and new: "edgeKey e \<notin> edges s"
  shows "gameInv cfg ps (drawEdge cfg e s)"
proof -
  let ?s1 = "s\<lparr>edges := insert (edgeKey e) (edges s)\<rparr>"
  let ?cb = "checkForCompletedBoxes cfg ?s1 e"
  from inv have pl: "players s = ps"
    and ed: "edges s \<subseteq> set (legalEdgeKeys cfg)"
    and cp: "ps \<noteq> [] \<longrightarrow> currentPlayer s < length ps"
    and ds: "dom (scores s) = {..<length ps}"
    and sm: "ps \<noteq> [] \<longrightarrow> scoreSum s = card (dom (boxes s))"
    by (simp_all add: gameInv_def)
  have 1: "players (drawEdge cfg e s) = ps" using pl by simp
  have 2: "edges (drawEdge cfg e s) \<subseteq> set (legalEdgeKeys cfg)"
    using ed legalEdge_key [OF legal] by simp
  have 3: "ps \<noteq> [] \<longrightarrow> currentPlayer (drawEdge cfg e s) < length ps"
    using cp pl by (simp add: drawEdge_currentPlayer)
  have 4: "dom (scores (drawEdge cfg e s)) = {..<length ps}"
  proof (cases "scores s (currentPlayer s)")
    case None
    then show ?thesis using ds by (simp add: drawEdge_scores_None)
  next
    case (Some v)
    then have "currentPlayer s \<in> dom (scores s)" by auto
    then show ?thesis using ds by (simp add: drawEdge_scores [OF Some] insert_absorb)
  qed
  have 5: "ps \<noteq> [] \<longrightarrow> scoreSum (drawEdge cfg e s) = card (dom (boxes (drawEdge cfg e s)))"
  proof
    assume ne: "ps \<noteq> []"
    with cp pl have lt: "currentPlayer s < length (players s)" by simp
    with ds pl have "currentPlayer s \<in> dom (scores s)" by simp
    then obtain v where v: "scores s (currentPlayer s) = Some v" by auto
    have "scoreSum (drawEdge cfg e s) = scoreSum s + length ?cb"
      by (rule scoreSum_upd [OF lt v drawEdge_players drawEdge_scores [OF v]])
    with sm ne show "scoreSum (drawEdge cfg e s) = card (dom (boxes (drawEdge cfg e s)))"
      by (simp add: drawEdge_card_boxes [OF inv legal new])
  qed
  from 1 2 3 4 5 drawEdge_dom_boxes_inv [OF inv legal new] show ?thesis
    unfolding gameInv_def by blast
qed

subsection \<open>Every handler keeps the invariant\<close>

lemma fold_zero:
  "fold (\<lambda>i sc. sc(i \<mapsto> 0::nat)) [0 ..< n] sc = (\<lambda>i. if i < n then Some 0 else sc i)"
  by (induction n) (auto simp: fun_eq_iff)

lemma zeroScores_scores:
  "scores (zeroScores s) = (\<lambda>i. if i < length (players s) then Some 0 else scores s i)"
  by (simp add: zeroScores_def fold_zero)

lemma zeroScores_fields [simp]:
  "edges (zeroScores s) = edges s"
  "players (zeroScores s) = players s"
  "currentPlayer (zeroScores s) = currentPlayer s"
  "boxes (zeroScores s) = boxes s"
  "gameOver (zeroScores s) = gameOver s"
  "highlightedEdge (zeroScores s) = highlightedEdge s"
  "boardOffset (zeroScores s) = boardOffset s"
  "canvasSize (zeroScores s) = canvasSize s"
  "winnerText (zeroScores s) = winnerText s"
  "gameOverDisplay (zeroScores s) = gameOverDisplay s"
  by (simp_all add: zeroScores_def)

lemma setupCanvas_fields [simp]:
  "edges (setupCanvas cfg s) = edges s"
  "players (setupCanvas cfg s) = players s"
  "currentPlayer (setupCanvas cfg s) = currentPlayer s"
  "scores (setupCanvas cfg s) = scores s"
  "boxes (setupCanvas cfg s) = boxes s"
  "gameOver (setupCanvas cfg s) = gameOver s"
  "highlightedEdge (setupCanvas cfg s) = highlightedEdge s"
  "winnerText (setupCanvas cfg s) = winnerText s"
  "gameOverDisplay (setupCanvas cfg s) = gameOverDisplay s"
  by (simp_all add: setupCanvas_def Let_def)

lemma cellComplete_empty: "edges s = {} \<Longrightarrow> \<not> cellComplete s i j"
  by (simp add: cellComplete_def cellEdgeKeys_def)

text \<open>A state with no edge, no box, all scores zero and the first player to move.\<close>

lemma fresh_inv:
  assumes "players s = ps" "edges s = {}" "boxes s = Map.empty" "currentPlayer s = 0"
    and "\<forall>i. scores s i = (if i < length ps then Some 0 else None)"
  shows "gameInv cfg ps s"
proof -
  have "dom (scores s) = {..<length ps}"
    using assms(5) by (auto simp: dom_def)
  moreover have "scoreSum s = 0"
    using assms(1,5) by (simp add: scoreSum_def)
  ultimately show ?thesis
    using assms(1-4) by (simp add: gameInv_def cellComplete_empty)
qed

lemma initGame_inv: "gameInv cfg ps (initGame cfg (initialState ps))"
  by (rule fresh_inv) (simp_all add: initGame_def zeroScores_scores, simp_all add: initialState_def)

lemma resetGame_fields [simp]:
  "edges (resetGame s) = {}"
  "players (resetGame s) = players s"
  "currentPlayer (resetGame s) = 0"
  "boxes (resetGame s) = Map.empty"
  "gameOver (resetGame s) = False"
  "highlightedEdge (resetGame s) = None"
  "boardOffset (resetGame s) = boardOffset s"
  "canvasSize (resetGame s) = canvasSize s"
  "winnerText (resetGame s) = winnerText s"
  "gameOverDisplay (resetGame s) = Some ''none''"
  by (simp_all add: resetGame_def)

lemma resetGame_scores:
  "scores (resetGame s) = (\<lambda>i. if i < length (players s) then Some 0 else scores s i)"
  by (simp add: resetGame_def zeroScores_scores cong: if_cong)

lemma resetGame_inv:
  assumes "gameInv cfg ps s"
  shows "gameInv cfg ps (resetGame s)"
proof (rule fresh_inv)
  from assms have pl: "players s = ps" and ds: "dom (scores s) = {..<length ps}"
    by (simp_all add: gameInv_def)
  show "\<forall>i. scores (resetGame s) i = (if i < length ps then Some 0 else None)"
  proof
    fix i
    from ds have "\<not> i < length ps \<Longrightarrow> scores s i = None" by (auto simp: dom_def)
    with pl show "scores (resetGame s) i = (if i < length ps then Some 0 else None)"
      by (simp add: resetGame_scores)
  qed
  from pl show "players (resetGame s) = ps" by simp
qed simp_all

text \<open>Hovering writes \<open>highlightedEdge\<close> and nothing else.\<close>

lemma handleMouseMove_frame:
  "handleMouseMove cfg ev s = s\<lparr>highlightedEdge := highlightedEdge (handleMouseMove cfg ev s)\<rparr>"
  by (simp add: handleMouseMove_def Let_def split: option.splits)

lemma gameInv_cong:
  assumes "players s' = players s" "edges s' = edges s" "boxes s' = boxes s"
    "currentPlayer s' = currentPlayer s" "scores s' = scores s"
  shows "gameInv cfg ps s' = gameInv cfg ps s"
  unfolding gameInv_def cellComplete_def scoreSum_def assms ..

lemma gameInv_highlight:
  "gameInv cfg ps (s\<lparr>highlightedEdge := h\<rparr>) = gameInv cfg ps s"
  by (rule gameInv_cong) simp_all

lemma handleMouseMove_inv: "gameInv cfg ps s \<Longrightarrow> gameInv cfg ps (handleMouseMove cfg ev s)"
  by (subst handleMouseMove_frame) (simp only: gameInv_highlight)

lemma setupCanvas_inv: "gameInv cfg ps s \<Longrightarrow> gameInv cfg ps (setupCanvas cfg s)"
  by (subst gameInv_cong [of _ s]) simp_all

text \<open>A click either changes nothing or draws a legal edge that was not drawn.\<close>

lemma handleCanvasClick_cases:
  obtains (rejected) "handleCanvasClick cfg ev s = s"
  | (drawn) e where "\<not> gameOver s" "legalEdge cfg e" "edgeKey e \<notin> edges s"
      "findNearestEdge cfg s (clientX ev - rectLeft ev) (clientY ev - rectTop ev) = Some e"
      "handleCanvasClick cfg ev s = drawEdge cfg e s"
proof (cases "handleCanvasClick cfg ev s = s")
  case True
  then show ?thesis by (rule rejected)
next
  case False
  then obtain e where
    "findNearestEdge cfg s (clientX ev - rectLeft ev) (clientY ev - rectTop ev) = Some e"
    "\<not> gameOver s" "edgeKey e \<notin> edges s" "handleCanvasClick cfg ev s = drawEdge cfg e s"
    by (auto simp: handleCanvasClick_def Let_def split: if_splits option.splits)
  with findNearestEdge_legal show ?thesis by (intro drawn [of e]) auto
qed

lemma handleCanvasClick_inv:
  "gameInv cfg ps s \<Longrightarrow> gameInv cfg ps (handleCanvasClick cfg ev s)"
  by (cases cfg ev s rule: handleCanvasClick_cases) (simp_all add: drawEdge_inv)

lemma step_inv: "gameInv cfg ps s \<Longrightarrow> gameInv cfg ps (step cfg ev s)"
  by (cases ev)
    (simp_all add: handleCanvasClick_inv handleMouseMove_inv resetGame_inv setupCanvas_inv)

lemma fold_step_inv: "gameInv cfg ps s \<Longrightarrow> gameInv cfg ps (fold (step cfg) evs s)"
  by (induction evs arbitrary: s) (simp_all add: step_inv)

lemma run_inv: "gameInv cfg ps (run cfg ps evs)"
  unfolding run_def by (rule fold_step_inv [OF initGame_inv])

lemma run_snoc: "run cfg ps (evs @ [ev]) = step cfg ev (run cfg ps evs)"
  by (simp add: run_def)

subsection \<open>The game is over exactly when the board is full\<close>

lemma legalEdgeKeys_nonempty:
  assumes "2 \<le> rows cfg" "2 \<le> cols cfg"
  shows "0 < totalPossibleEdges cfg"
proof -
  have "edgeKeyOf 0 0 0 (0 + 1) \<in> set (legalEdgeKeys cfg)"
    unfolding legalEdgeKeys_iff using assms by (intro disjI1 exI [of _ 0]) simp
  then have "set (legalEdgeKeys cfg) \<noteq> {}" by auto
  then have "0 < card (set (legalEdgeKeys cfg))" by (simp add: card_gt_0_iff)
  moreover have "int (card (set (legalEdgeKeys cfg))) = totalPossibleEdges cfg"
    using assms by (intro card_legalEdgeKeys) simp_all
  ultimately show ?thesis by linarith
qed

lemma last_edge_completes:
  assumes inv: "gameInv cfg ps s" and legal: "legalEdge cfg e"
    and big: "2 \<le> rows cfg" "2 \<le> cols cfg"
    and full: "int (card (insert (edgeKey e) (edges s))) = totalPossibleEdges cfg"
  shows "checkForCompletedBoxes cfg (s\<lparr>edges := insert (edgeKey e) (edges s)\<rparr>) e \<noteq> []"
proof -
  let ?L = "set (legalEdgeKeys cfg)"
  let ?s1 = "s\<lparr>edges := insert (edgeKey e) (edges s)\<rparr>"
  have in1: "edgeKey e \<in> edges ?s1" by simp
  have "int (card ?L) = totalPossibleEdges cfg"
    using big by (intro card_legalEdgeKeys) simp_all
  with full have eq: "card (insert (edgeKey e) (edges s)) = card ?L" by simp
  have "edges s \<subseteq> ?L" using inv by (simp add: gameInv_def)
  with legalEdge_key [OF legal] have "insert (edgeKey e) (edges s) \<subseteq> ?L" by simp
  with eq have all: "insert (edgeKey e) (edges s) = ?L"
    by (intro card_subset_eq) simp_all
  from legalEdge_has_cell [OF legal big] obtain i j
    where ij: "isCell cfg i j" "edgeKey e \<in> set (cellEdgeKeys i j)" by blast
  from cell_edges_legal [OF ij(1)] all have "cellComplete ?s1 i j"
    by (simp add: cellComplete_def)
  with ij have "(i, j) \<in> set (checkForCompletedBoxes cfg ?s1 e)"
    unfolding completed_iff [OF legal in1] by simp
  then show ?thesis by auto
qed

lemma drawEdge_gameOver_iff:
  assumes inv: "gameInv cfg ps s" and legal: "legalEdge cfg e" and new: "edgeKey e \<notin> edges s"
    and big: "2 \<le> rows cfg" "2 \<le> cols cfg"
    and run: "\<not> gameOver s" "int (card (edges s)) \<noteq> totalPossibleEdges cfg"
  shows "gameOver (drawEdge cfg e s) \<longleftrightarrow>
           int (card (edges (drawEdge cfg e s))) = totalPossibleEdges cfg"
proof -
  let ?L = "set (legalEdgeKeys cfg)"
  let ?s1 = "s\<lparr>edges := insert (edgeKey e) (edges s)\<rparr>"
  let ?cb = "checkForCompletedBoxes cfg ?s1 e"
  have in1: "edgeKey e \<in> edges ?s1" by simp
  have total: "int (card ?L) = totalPossibleEdges cfg"
    using big by (intro card_legalEdgeKeys) simp_all
  have sub: "edges s \<subseteq> ?L" using inv by (simp add: gameInv_def)
  have fin: "finite (edges s)" by (rule gameInv_finite_edges [OF inv])
  have sub1: "insert (edgeKey e) (edges s) \<subseteq> ?L"
    using sub legalEdge_key [OF legal] by simp
  have le: "card (insert (edgeKey e) (edges s)) \<le> card ?L"
    by (rule card_mono [OF _ sub1]) simp
  show ?thesis
  proof (cases "?cb = []")
    case True
    have "int (card (insert (edgeKey e) (edges s))) \<noteq> totalPossibleEdges cfg"
    proof
      assume "int (card (insert (edgeKey e) (edges s))) = totalPossibleEdges cfg"
      with total have "card (insert (edgeKey e) (edges s)) = card ?L" by simp
      with sub1 have all: "insert (edgeKey e) (edges s) = ?L"
        by (intro card_subset_eq) simp_all
      from legalEdge_has_cell [OF legal big] obtain i j
        where ij: "isCell cfg i j" "edgeKey e \<in> set (cellEdgeKeys i j)" by blast
      from cell_edges_legal [OF ij(1)] all have "cellComplete ?s1 i j"
        by (simp add: cellComplete_def)
      with ij have "(i, j) \<in> set ?cb"
        unfolding completed_iff [OF legal in1] by simp
      with True show False by simp
    qed
    with True run(1) show ?thesis by (simp add: drawEdge_gameOver)
  next
    case False
    with run(1) have "gameOver (drawEdge cfg e s) \<longleftrightarrow>
        int (card (insert (edgeKey e) (edges s))) \<ge> totalPossibleEdges cfg"
      by (simp add: drawEdge_gameOver)
    also have "\<dots> \<longleftrightarrow> int (card (insert (edgeKey e) (edges s))) = totalPossibleEdges cfg"
      using le total by linarith
    finally show ?thesis by simp
  qed
qed

lemma step_gameOver_iff:
  assumes inv: "gameInv cfg ps s" and big: "2 \<le> rows cfg" "2 \<le> cols cfg"
    and old: "gameOver s \<longleftrightarrow> int (card (edges s)) = totalPossibleEdges cfg"
  shows "gameOver (step cfg ev s) \<longleftrightarrow>
           int (card (edges (step cfg ev s))) = totalPossibleEdges cfg"
proof (cases ev)
  case (Click p)
  show ?thesis
  proof (cases cfg p s rule: handleCanvasClick_cases)
    case rejected
    with old Click show ?thesis by simp
  next
    case (drawn e)
    from drawn(1) old have "int (card (edges s)) \<noteq> totalPossibleEdges cfg" by simp
    from drawEdge_gameOver_iff [OF inv drawn(2,3) big drawn(1) this] drawn(5) Click
    show ?thesis by simp
  qed
next
  case (MouseMove p)
  have "gameOver (handleMouseMove cfg p s) = gameOver s"
    "edges (handleMouseMove cfg p s) = edges s"
    by (subst handleMouseMove_frame, simp)+
  with old MouseMove show ?thesis by simp
next
  case Reset
  with legalEdgeKeys_nonempty [OF big] show ?thesis by simp
next
  case Resize
  with old show ?thesis by simp
qed

lemma run_gameOver_iff:
  assumes "2 \<le> rows cfg" "2 \<le> cols cfg"
  shows "gameOver (run cfg ps evs) \<longleftrightarrow>
           int (card (edges (run cfg ps evs))) = totalPossibleEdges cfg"
proof (induction evs rule: rev_induct)
  case Nil
  have "\<not> gameOver (run cfg ps [])" "edges (run cfg ps []) = {}"
    by (simp_all add: run_def initGame_def) (simp_all add: initialState_def)
  with legalEdgeKeys_nonempty [OF assms] show ?case by simp
next
  case (snoc ev evs)
  show ?case
    unfolding run_snoc by (rule step_gameOver_iff [OF run_inv assms snoc])
qed

subsection \<open>Clicks, turns and scores\<close>

lemma findNearestEdge_offset:
  assumes "boardOffset s' = boardOffset s"
  shows "findNearestEdge cfg s' x y = findNearestEdge cfg s x y"
  unfolding findNearestEdge_def assms ..

lemma handleCanvasClick_gameOver: "gameOver s \<Longrightarrow> handleCanvasClick cfg ev s = s"
  by (simp add: handleCanvasClick_def)

lemma handleCanvasClick_drawn:
  "findNearestEdge cfg s (clientX ev - rectLeft ev) (clientY ev - rectTop ev) = Some e \<Longrightarrow>
   edgeKey e \<in> edges s \<Longrightarrow> handleCanvasClick cfg ev s = s"
  by (simp add: handleCanvasClick_def Let_def)

lemma handleCanvasClick_no_edge:
  "findNearestEdge cfg s (clientX ev - rectLeft ev) (clientY ev - rectTop ev) = None \<Longrightarrow>
   handleCanvasClick cfg ev s = s"
  by (simp add: handleCanvasClick_def Let_def)

lemma handleCanvasClick_new:
  "\<not> gameOver s \<Longrightarrow>
   findNearestEdge cfg s (clientX ev - rectLeft ev) (clientY ev - rectTop ev) = Some e \<Longrightarrow>
   edgeKey e \<notin> edges s \<Longrightarrow> handleCanvasClick cfg ev s = drawEdge cfg e s"
  by (simp add: handleCanvasClick_def Let_def)

lemma handleCanvasClick_twice:
  "handleCanvasClick cfg ev (handleCanvasClick cfg ev s) = handleCanvasClick cfg ev s"
proof (cases cfg ev s rule: handleCanvasClick_cases)
  case rejected
  then show ?thesis by simp
next
  case (drawn e)
  have "findNearestEdge cfg (drawEdge cfg e s) (clientX ev - rectLeft ev)
          (clientY ev - rectTop ev) = Some e"
    using drawn(4) by (simp add: findNearestEdge_offset [of "drawEdge cfg e s" s])
  then have "handleCanvasClick cfg ev (drawEdge cfg e s) = drawEdge cfg e s"
    by (rule handleCanvasClick_drawn) simp
  with drawn(5) show ?thesis by simp
qed

lemma newly_completed:
  assumes legal: "legalEdge cfg e" and new: "edgeKey e \<notin> edges s"
  shows "{(i, j). isCell cfg i j \<and> cellComplete (drawEdge cfg e s) i j \<and> \<not> cellComplete s i j} =
           set (checkForCompletedBoxes cfg (s\<lparr>edges := insert (edgeKey e) (edges s)\<rparr>) e)"
proof -
  let ?s1 = "s\<lparr>edges := insert (edgeKey e) (edges s)\<rparr>"
  have in1: "edgeKey e \<in> edges ?s1" by simp
  have not_old: "edgeKey e \<in> set (cellEdgeKeys i j) \<Longrightarrow> \<not> cellComplete s i j" for i j
    using new by (auto simp: cellComplete_def)
  show ?thesis
  proof (rule set_eqI, clarify)
    fix i j
    show "(i, j) \<in> {(i, j). isCell cfg i j \<and> cellComplete (drawEdge cfg e s) i j \<and>
              \<not> cellComplete s i j} \<longleftrightarrow> (i, j) \<in> set (checkForCompletedBoxes cfg ?s1 e)"
      unfolding completed_iff [OF legal in1] cellComplete_drawEdge [OF new]
      using not_old [of i j] by auto
  qed
qed

lemma run_scores_dom: "i < length ps \<Longrightarrow> scores (run cfg ps evs) i \<noteq> None"
proof -
  assume "i < length ps"
  moreover have "dom (scores (run cfg ps evs)) = {..<length ps}"
    using run_inv [of cfg ps evs] by (simp add: gameInv_def)
  ultimately show ?thesis by (auto simp: dom_def)
qed

lemma scoreSum_resetGame: "scoreSum (resetGame s) = 0"
  by (simp add: scoreSum_def resetGame_scores)

subsection \<open>Reset and the permanence of owners\<close>

lemma step_geometry:
  assumes "canvasSize s = canvasSize (setupCanvas cfg s0)"
    "boardOffset s = boardOffset (setupCanvas cfg s0)"
  shows "canvasSize (step cfg ev s) = canvasSize (setupCanvas cfg s0) \<and>
         boardOffset (step cfg ev s) = boardOffset (setupCanvas cfg s0)"
proof (cases ev)
  case (Click p)
  show ?thesis
    by (cases cfg p s rule: handleCanvasClick_cases) (simp_all add: Click assms)
next
  case (MouseMove p)
  have "canvasSize (handleMouseMove cfg p s) = canvasSize s"
    "boardOffset (handleMouseMove cfg p s) = boardOffset s"
    by (subst handleMouseMove_frame, simp)+
  with assms MouseMove show ?thesis by simp
next
  case Reset
  with assms show ?thesis by simp
next
  case Resize
  then show ?thesis by (simp add: setupCanvas_def Let_def)
qed

lemma run_geometry:
  "canvasSize (run cfg ps evs) = canvasSize (initGame cfg (initialState ps)) \<and>
   boardOffset (run cfg ps evs) = boardOffset (initGame cfg (initialState ps))"
proof (induction evs rule: rev_induct)
  case Nil
  show ?case by (simp add: run_def)
next
  case (snoc ev evs)
  then show ?case
    unfolding run_snoc initGame_def by (intro step_geometry) simp_all
qed

lemma run_players: "players (run cfg ps evs) = ps"
  using run_inv [of cfg ps evs] by (simp add: gameInv_def)

lemma resetGame_run_scores:
  "scores (resetGame (run cfg ps evs)) = scores (initGame cfg (initialState ps))"
proof (rule ext)
  fix i
  have "dom (scores (run cfg ps evs)) = {..<length ps}"
    using run_inv [of cfg ps evs] by (simp add: gameInv_def)
  then have "\<not> i < length ps \<Longrightarrow> scores (run cfg ps evs) i = None"
    by (auto simp: dom_def)
  then show "scores (resetGame (run cfg ps evs)) i = scores (initGame cfg (initialState ps)) i"
    by (simp add: resetGame_scores run_players initGame_def zeroScores_scores)
      (simp add: initialState_def)
qed

lemma resetGame_run:
  "resetGame (run cfg ps evs) =
     (initGame cfg (initialState ps))
       \<lparr>winnerText := winnerText (run cfg ps evs), gameOverDisplay := Some ''none''\<rparr>"
proof (rule state.equality)
  show "scores (resetGame (run cfg ps evs)) =
          scores ((initGame cfg (initialState ps))
            \<lparr>winnerText := winnerText (run cfg ps evs), gameOverDisplay := Some ''none''\<rparr>)"
    by (simp add: resetGame_run_scores)
  show "canvasSize (resetGame (run cfg ps evs)) =
          canvasSize ((initGame cfg (initialState ps))
            \<lparr>winnerText := winnerText (run cfg ps evs), gameOverDisplay := Some ''none''\<rparr>)"
    by (simp add: run_geometry)
  show "boardOffset (resetGame (run cfg ps evs)) =
          boardOffset ((initGame cfg (initialState ps))
            \<lparr>winnerText := winnerText (run cfg ps evs), gameOverDisplay := Some ''none''\<rparr>)"
    by (simp add: run_geometry)
qed (simp_all add: run_players, simp_all add: initGame_def, simp_all add: initialState_def)

lemma completed_not_owned:
  assumes inv: "gameInv cfg ps s" and legal: "legalEdge cfg e" and new: "edgeKey e \<notin> edges s"
    and own: "boxes s k = Some p"
  shows "k \<notin> (\<lambda>b. boxKeyOf (fst b) (snd b)) `
           set (checkForCompletedBoxes cfg (s\<lparr>edges := insert (edgeKey e) (edges s)\<rparr>) e)"
proof
  let ?s1 = "s\<lparr>edges := insert (edgeKey e) (edges s)\<rparr>"
  have in1: "edgeKey e \<in> edges ?s1" by simp
  assume "k \<in> (\<lambda>b. boxKeyOf (fst b) (snd b)) ` set (checkForCompletedBoxes cfg ?s1 e)"
  then obtain i j where ij: "(i, j) \<in> set (checkForCompletedBoxes cfg ?s1 e)" "k = boxKeyOf i j"
    by auto
  from own have "k \<in> dom (boxes s)" by auto
  with inv ij(2) have "cellComplete s i j" by (auto simp: gameInv_def)
  moreover from ij(1) have "edgeKey e \<in> set (cellEdgeKeys i j)"
    unfolding completed_iff [OF legal in1] by simp
  ultimately show False using new by (auto simp: cellComplete_def)
qed

lemma step_boxes_kept:
  assumes inv: "gameInv cfg ps s" and ev: "ev \<noteq> Reset" and own: "boxes s k = Some p"
  shows "boxes (step cfg ev s) k = Some p"
proof (cases ev)
  case (Click q)
  show ?thesis
  proof (cases cfg q s rule: handleCanvasClick_cases)
    case rejected
    with own Click show ?thesis by simp
  next
    case (drawn e)
    from completed_not_owned [OF inv drawn(2,3) own] own drawn(5) Click
    show ?thesis by (simp add: drawEdge_boxes)
  qed
next
  case (MouseMove q)
  have "boxes (handleMouseMove cfg q s) = boxes s"
    by (subst handleMouseMove_frame) simp
  with own MouseMove show ?thesis by simp
next
  case Reset
  with ev show ?thesis by simp
next
  case Resize
  with own show ?thesis by simp
qed

lemma fold_boxes_kept:
  "gameInv cfg ps s \<Longrightarrow> Reset \<notin> set evs \<Longrightarrow> boxes s k = Some p \<Longrightarrow>
   boxes (fold (step cfg) evs s) k = Some p"
proof (induction evs arbitrary: s)
  case Nil
  then show ?case by simp
next
  case (Cons ev evs)
  from Cons.prems have "boxes (step cfg ev s) k = Some p"
    by (intro step_boxes_kept [of cfg ps]) auto
  with Cons.prems Cons.IH [OF step_inv [OF Cons.prems(1)]] show ?case by simp
qed

lemma run_append: "run cfg ps (evs @ evs') = fold (step cfg) evs' (run cfg ps evs)"
  by (simp add: run_def)

lemma run_boxes_iff:
  assumes "isCell cfg i j"
  shows "boxKeyOf i j \<in> dom (boxes (run cfg ps evs)) \<longleftrightarrow> cellComplete (run cfg ps evs) i j"
proof -
  have "dom (boxes (run cfg ps evs)) =
          {boxKeyOf i j |i j. isCell cfg i j \<and> cellComplete (run cfg ps evs) i j}"
    using run_inv [of cfg ps evs] by (simp add: gameInv_def)
  with assms show ?thesis by auto
qed

lemma run_boxes_cells:
  "dom (boxes (run cfg ps evs)) \<subseteq> {boxKeyOf i j |i j. isCell cfg i j}"
proof -
  have "dom (boxes (run cfg ps evs)) =
          {boxKeyOf i j |i j. isCell cfg i j \<and> cellComplete (run cfg ps evs) i j}"
    using run_inv [of cfg ps evs] by (simp add: gameInv_def)
  then show ?thesis by auto
qed

subsection \<open>Counting the legal edges\<close>

lemma length_horizontalKeys:
  "length (horizontalKeys cfg) = nat (rows cfg) * nat (cols cfg - 1)"
  by (simp add: horizontalKeys_def length_concat comp_def sum_list_triv)

lemma length_verticalKeys:
  "length (verticalKeys cfg) = nat (rows cfg - 1) * nat (cols cfg)"
  by (simp add: verticalKeys_def length_concat comp_def sum_list_triv)

lemma distinct_legalEdgeKeys: "distinct (legalEdgeKeys cfg)"
proof -
  have "distinct (horizontalKeys cfg)"
    by (rule card_distinct) (simp add: card_horizontalKeys length_horizontalKeys)
  moreover have "distinct (verticalKeys cfg)"
    by (rule card_distinct) (simp add: card_verticalKeys length_verticalKeys)
  ultimately show ?thesis
    by (simp add: legalEdgeKeys_def horizontal_vertical_disjoint)
qed

lemma legal_horizontal_clickable:
  assumes cs: "30 < cellSize cfg"
    and r: "0 \<le> i" "i < rows cfg" "0 \<le> j" "j < cols cfg - 1"
  shows "findNearestEdge cfg s (fst (boardOffset s) + of_int j * cellSize cfg)
           (snd (boardOffset s) + of_int i * cellSize cfg) =
         Some \<lparr>r1 = i, c1 = j, r2 = i, c2 = j + 1, isHorizontal = True\<rparr>"
proof -
  from cs have nz: "cellSize cfg \<noteq> 0" by simp
  have rx: "round ((fst (boardOffset s) + of_int j * cellSize cfg - fst (boardOffset s)) / cellSize cfg) = j"
    using nz by simp
  have ry: "round ((snd (boardOffset s) + of_int i * cellSize cfg - snd (boardOffset s)) / cellSize cfg) = i"
    using nz by simp
  show ?thesis
    unfolding findNearestEdge_def Let_def rx ry using r by simp
qed

lemma round_near:
  assumes "30 < (c::rat)"
  shows "round ((of_int i * c + 15) / c) = i"
proof -
  from assms have pos: "0 < c" by simp
  have "(of_int i * c + 15) / c = of_int i + 15 / c"
    using pos by (simp add: field_simps)
  moreover have "15 / c < 1 / 2" using assms pos by (simp add: field_simps)
  moreover have "0 \<le> 15 / c" using pos by simp
  ultimately show ?thesis
    unfolding round_def by (simp add: floor_unique)
qed

lemma legal_vertical_clickable:
  assumes cs: "30 < cellSize cfg"
    and r: "0 \<le> i" "i < rows cfg - 1" "0 \<le> j" "j < cols cfg"
  shows "findNearestEdge cfg s (fst (boardOffset s) + of_int j * cellSize cfg)
           (snd (boardOffset s) + of_int i * cellSize cfg + 15) =
         Some \<lparr>r1 = i, c1 = j, r2 = i + 1, c2 = j, isHorizontal = False\<rparr>"
proof -
  from cs have nz: "cellSize cfg \<noteq> 0" by simp
  have rx: "round ((fst (boardOffset s) + of_int j * cellSize cfg - fst (boardOffset s)) / cellSize cfg) = j"
    using nz by simp
  have ry: "round ((snd (boardOffset s) + of_int i * cellSize cfg + 15 - snd (boardOffset s)) / cellSize cfg) = i"
    using round_near [OF cs, of i] by (simp add: algebra_simps)
  show ?thesis
    unfolding findNearestEdge_def Let_def rx ry using r by simp
qed

lemma legal_key_clickable:
  assumes cs: "30 < cellSize cfg" and k: "k \<in> set (legalEdgeKeys cfg)"
  shows "\<exists>x y e. findNearestEdge cfg s x y = Some e \<and> edgeKey e = k"
proof -
  from k consider
    (h) i j where "0 \<le> i" "i < rows cfg" "0 \<le> j" "j < cols cfg - 1" "k = edgeKeyOf i j i (j + 1)"
  | (v) i j where "0 \<le> i" "i < rows cfg - 1" "0 \<le> j" "j < cols cfg" "k = edgeKeyOf i j (i + 1) j"
    unfolding legalEdgeKeys_iff by blast
  then show ?thesis
  proof cases
    case h
    from legal_horizontal_clickable [OF cs h(1-4), of s] h(5) show ?thesis
      by (intro exI conjI) (assumption, simp add: edgeKey_def)
  next
    case v
    from legal_vertical_clickable [OF cs v(1-4), of s] v(5) show ?thesis
      by (intro exI conjI) (assumption, simp add: edgeKey_def)
  qed
qed

subsection \<open>The report at the end of the game\<close>

lemma scoreOf_Some: "scores s i = Some v \<Longrightarrow> scoreOf s i = v"
  by (simp add: scoreOf_def)

lemma winnerStep_present:
  assumes "scores s i \<noteq> None"
  shows "winnerStep s i (m, w, t) =
           (if int (scoreOf s i) > m then (int (scoreOf s i), int i, False)
            else if int (scoreOf s i) = m then (m, w, True)
            else (m, w, t))"
  using assms by (auto simp: winnerStep_def scoreOf_def)

lemma scanned_step:
  assumes "scanned s k acc" "scores s k \<noteq> None"
  shows "scanned s (Suc k) (winnerStep s k acc)"
proof -
  obtain m w t where acc: "acc = (m, w, t)" by (cases acc) auto
  from assms(1) have le: "\<forall>i<k. int (scoreOf s i) \<le> m"
    and z: "k = 0 \<longrightarrow> m = - 1 \<and> \<not> t"
    and p: "0 < k \<longrightarrow> 0 \<le> w \<and> nat w < k \<and> int (scoreOf s (nat w)) = m"
    and t: "t \<longleftrightarrow> (\<exists>i<k. i \<noteq> nat w \<and> int (scoreOf s i) = m)"
    by (simp_all add: scanned_def acc)
  consider (gt) "int (scoreOf s k) > m" | (eq) "int (scoreOf s k) = m" | (lt) "int (scoreOf s k) < m"
    by linarith
  then show ?thesis
  proof cases
    case gt
    have "\<forall>i<Suc k. int (scoreOf s i) \<le> int (scoreOf s k)"
      using le gt by (auto simp: less_Suc_eq)
    moreover have "\<not> (\<exists>i<Suc k. i \<noteq> k \<and> int (scoreOf s i) = int (scoreOf s k))"
      using le gt by (auto simp: less_Suc_eq)
    ultimately show ?thesis
      using gt by (simp add: acc winnerStep_present [OF assms(2)] scanned_def)
  next
    case eq
    then have k: "0 < k" using z by (cases k) auto
    with p have w: "0 \<le> w" "nat w < k" "int (scoreOf s (nat w)) = m" by simp_all
    have "\<forall>i<Suc k. int (scoreOf s i) \<le> m"
      using le eq by (auto simp: less_Suc_eq)
    moreover have "\<exists>i<Suc k. i \<noteq> nat w \<and> int (scoreOf s i) = m"
      using w eq by (intro exI [of _ k]) simp
    ultimately show ?thesis
      using eq w by (simp add: acc winnerStep_present [OF assms(2)] scanned_def)
  next
    case lt
    then have k: "0 < k" using z by (cases k) auto
    with p have w: "0 \<le> w" "nat w < k" "int (scoreOf s (nat w)) = m" by simp_all
    have "\<forall>i<Suc k. int (scoreOf s i) \<le> m"
      using le lt by (auto simp: less_Suc_eq)
    moreover have "(\<exists>i<Suc k. i \<noteq> nat w \<and> int (scoreOf s i) = m) \<longleftrightarrow> t"
      using t lt by (auto simp: less_Suc_eq)
    ultimately show ?thesis
      using lt w by (simp add: acc winnerStep_present [OF assms(2)] scanned_def)
  qed
qed

lemma scanned_fold:
  "\<forall>i<k. scores s i \<noteq> None \<Longrightarrow>
   scanned s k (fold (winnerStep s) [0 ..< k] (- 1, - 1, False))"
proof (induction k)
  case 0
  show ?case by (simp add: scanned_def)
next
  case (Suc k)
  then show ?case by (simp add: scanned_step)
qed

lemma findWinner_scanned:
  "\<forall>i<length (players s). scores s i \<noteq> None \<Longrightarrow>
   scanned s (length (players s)) (findWinner s)"
  unfolding findWinner_def by (rule scanned_fold)


lemma fold_max_ge: "(a::nat) \<le> fold max xs a"
proof (induction xs arbitrary: a)
  case Nil
  show ?case by simp
next
  case (Cons y ys)
  have "a \<le> max y a" by simp
  also have "\<dots> \<le> fold max ys (max y a)" by (rule Cons)
  finally show ?case by simp
qed

lemma fold_max_upper: "x \<in> set xs \<Longrightarrow> (x::nat) \<le> fold max xs a"
proof (induction xs arbitrary: a)
  case Nil
  then show ?case by simp
next
  case (Cons y ys)
  show ?case
  proof (cases "x = y")
    case True
    have "y \<le> max y a" by simp
    also have "\<dots> \<le> fold max ys (max y a)" by (rule fold_max_ge)
    finally show ?thesis using True by simp
  next
    case False
    with Cons show ?thesis by simp
  qed
qed

lemma fold_max_in: "fold max xs (a::nat) = a \<or> fold max xs a \<in> set xs"
proof (induction xs arbitrary: a)
  case Nil
  show ?case by simp
next
  case (Cons y ys)
  from Cons [of "max y a"] show ?case
  proof
    assume "fold max ys (max y a) = max y a"
    moreover have "max y a = a \<or> max y a = y" by (simp add: max_def)
    ultimately show ?thesis by auto
  next
    assume "fold max ys (max y a) \<in> set ys"
    then show ?thesis by simp
  qed
qed

lemma topScore_upper: "i < length (players s) \<Longrightarrow> scoreOf s i \<le> topScore s"
  unfolding topScore_def by (rule fold_max_upper) simp

lemma topScore_attained:
  assumes "players s \<noteq> []"
  shows "\<exists>i<length (players s). scoreOf s i = topScore s"
proof -
  let ?xs = "map (scoreOf s) [0 ..< length (players s)]"
  from fold_max_in [of ?xs 0] show ?thesis
  proof
    assume z: "fold max ?xs 0 = 0"
    from assms have 0: "0 < length (players s)" by simp
    from topScore_upper [OF 0] z have "scoreOf s 0 = topScore s" by (simp add: topScore_def)
    with 0 show ?thesis by blast
  next
    assume "fold max ?xs 0 \<in> set ?xs"
    then show ?thesis by (auto simp: topScore_def)
  qed
qed

lemma set_winners:
  "set (winners s) = {i. i < length (players s) \<and> scoreOf s i = topScore s}"
  by (auto simp: winners_def)

lemma distinct_winners: "distinct (winners s)"
  by (simp add: winners_def)


text \<open>The locals after the loop, in terms of the highest score and of who has it.\<close>

lemma length_winners: "length (winners s) = card (set (winners s))"
  by (simp add: distinct_card distinct_winners)

lemma winners_two:
  assumes "i \<in> set (winners s)" "j \<in> set (winners s)" "i \<noteq> j"
  shows "1 < length (winners s)"
proof -
  from assms(1,2) have "{i, j} \<subseteq> set (winners s)" by simp
  then have "card {i, j} \<le> card (set (winners s))" by (intro card_mono) simp_all
  moreover from assms(3) have "card {i, j} = 2" by simp
  ultimately show ?thesis unfolding length_winners by linarith
qed

lemma winners_one:
  assumes "set (winners s) = {i}"
  shows "winners s = [i]"
proof -
  have "length (winners s) = 1" unfolding length_winners assms by simp
  then obtain x where x: "winners s = [x]" by (cases "winners s") auto
  with assms show ?thesis by simp
qed

lemma findWinner_result:
  assumes ne: "players s \<noteq> []" and sc: "\<forall>i<length (players s). scores s i \<noteq> None"
  obtains w t where "findWinner s = (int (topScore s), int w, t)" "w \<in> set (winners s)"
    "t \<longleftrightarrow> 1 < length (winners s)" "\<not> t \<longrightarrow> winners s = [w]"
proof -
  let ?n = "length (players s)"
  obtain m w t where fw: "findWinner s = (m, w, t)" by (cases "findWinner s") auto
  from ne have n: "0 < ?n" by simp
  have scn: "scanned s ?n (m, w, t)"
    using findWinner_scanned [OF sc] unfolding fw .
  from scn have le: "\<forall>i<?n. int (scoreOf s i) \<le> m"
    unfolding scanned_def by simp
  from scn n have w: "0 \<le> w" "nat w < ?n" "int (scoreOf s (nat w)) = m"
    unfolding scanned_def by simp_all
  from scn have t: "t \<longleftrightarrow> (\<exists>i<?n. i \<noteq> nat w \<and> int (scoreOf s i) = m)"
    unfolding scanned_def by simp
  from topScore_attained [OF ne] obtain j where j: "j < ?n" "scoreOf s j = topScore s" by blast
  from le j have "int (topScore s) \<le> m" by auto
  moreover from topScore_upper [OF w(2)] w(3) have "m \<le> int (topScore s)" by linarith
  ultimately have m: "m = int (topScore s)" by linarith
  from w(2,3) have win: "nat w \<in> set (winners s)" unfolding set_winners m by simp
  have tie: "t \<longleftrightarrow> 1 < length (winners s)"
  proof
    assume t
    then obtain i where i: "i < ?n" "i \<noteq> nat w" "int (scoreOf s i) = m" unfolding t by blast
    from i(1,3) have "i \<in> set (winners s)" unfolding set_winners m by simp
    from winners_two [OF this win i(2)] show "1 < length (winners s)" .
  next
    assume many: "1 < length (winners s)"
    show t
    proof (rule ccontr)
      assume nt: "\<not> t"
      have "set (winners s) = {nat w}"
      proof (rule set_eqI)
        fix i
        show "i \<in> set (winners s) \<longleftrightarrow> i \<in> {nat w}"
        proof
          assume "i \<in> set (winners s)"
          then have "i < ?n" "int (scoreOf s i) = m" unfolding set_winners m by simp_all
          with nt t show "i \<in> {nat w}" by blast
        next
          assume "i \<in> {nat w}"
          with win show "i \<in> set (winners s)" by simp
        qed
      qed
      from winners_one [OF this] many show False by simp
    qed
  qed
  have one: "\<not> t \<longrightarrow> winners s = [nat w]"
  proof
    assume nt: "\<not> t"
    have "set (winners s) = {nat w}"
    proof (rule set_eqI)
      fix i
      show "i \<in> set (winners s) \<longleftrightarrow> i \<in> {nat w}"
      proof
        assume "i \<in> set (winners s)"
        then have "i < ?n" "int (scoreOf s i) = m" unfolding set_winners m by simp_all
        with nt t show "i \<in> {nat w}" by blast
      next
        assume "i \<in> {nat w}"
        with win show "i \<in> set (winners s)" by simp
      qed
    qed
    then show "winners s = [nat w]" by (rule winners_one)
  qed
  from w(1) have "int (nat w) = w" by simp
  then have "findWinner s = (int (topScore s), int (nat w), t)" unfolding fw m by simp
  from that [OF this win tie one] show ?thesis .
qed

lemma endGame_winnerText:
  assumes ne: "players s \<noteq> []" and sc: "\<forall>i<length (players s). scores s i \<noteq> None"
  shows "winnerText (endGame s) =
           Some (if length (winners s) = 1
                 then winMessage (players s ! hd (winners s)) (int (topScore s))
                 else tieMessage)"
    and "1 \<le> length (winners s)"
proof -
  from findWinner_result [OF ne sc] obtain w t where
    fw: "findWinner s = (int (topScore s), int w, t)" and win: "w \<in> set (winners s)"
    and tie: "t \<longleftrightarrow> 1 < length (winners s)" and one: "\<not> t \<longrightarrow> winners s = [w]"
    by blast
  from win show "1 \<le> length (winners s)" by (cases "winners s") auto
  from win have lt: "w < length (players s)" by (simp add: set_winners)
  show "winnerText (endGame s) =
           Some (if length (winners s) = 1
                 then winMessage (players s ! hd (winners s)) (int (topScore s))
                 else tieMessage)"
  proof (cases t)
    case True
    with tie fw show ?thesis by (simp add: endGame_def)
  next
    case False
    with one have "winners s = [w]" by simp
    with False fw lt show ?thesis by (simp add: endGame_def playerName_def)
  qed
qed


lemma winners_cong:
  assumes "players s' = players s" "scores s' = scores s"
  shows "winners s' = winners s" "topScore s' = topScore s" "scoreOf s' = scoreOf s"
proof -
  show 1: "scoreOf s' = scoreOf s" by (rule ext) (simp add: scoreOf_def assms)
  show 2: "topScore s' = topScore s" by (simp add: topScore_def assms 1)
  show "winners s' = winners s" by (simp add: winners_def assms 1 2)
qed

lemma drawEdge_ended:
  assumes "\<not> gameOver s" "gameOver (drawEdge cfg e s)"
  shows "\<exists>s2. drawEdge cfg e s = endGame s2"
proof (rule ccontr)
  assume no: "\<not> (\<exists>s2. drawEdge cfg e s = endGame s2)"
  let ?s1 = "s\<lparr>edges := insert (edgeKey e) (edges s)\<rparr>"
  let ?cb = "checkForCompletedBoxes cfg ?s1 e"
  from no have "drawEdge cfg e s =
      (if ?cb = [] then ?s1\<lparr>currentPlayer := (currentPlayer ?s1 + 1) mod length (players ?s1)\<rparr>
       else fold awardBox ?cb ?s1)"
    by (auto simp: drawEdge_def Let_def)
  then have "gameOver (drawEdge cfg e s) = gameOver s"
    by (simp split: if_splits)
  with assms show False by simp
qed

lemma step_ended:
  assumes "\<not> gameOver s" "gameOver (step cfg ev s)"
  shows "\<exists>s2. step cfg ev s = endGame s2"
proof (cases ev)
  case (Click q)
  show ?thesis
  proof (cases cfg q s rule: handleCanvasClick_cases)
    case rejected
    with assms Click show ?thesis by simp
  next
    case (drawn e)
    with assms Click have "gameOver (drawEdge cfg e s)" by simp
    from drawEdge_ended [OF assms(1) this] drawn(5) Click show ?thesis by simp
  qed
next
  case (MouseMove q)
  have "gameOver (handleMouseMove cfg q s) = gameOver s"
    by (subst handleMouseMove_frame) simp
  with assms MouseMove show ?thesis by simp
next
  case Reset
  with assms show ?thesis by simp
next
  case Resize
  with assms show ?thesis by simp
qed

lemma endGame_display: "gameOverDisplay (endGame s) = Some ''flex''"
  by (simp add: endGame_def split: prod.splits)

lemma run_end_report:
  assumes ne: "ps \<noteq> []" and before: "\<not> gameOver (run cfg ps evs)"
    and after: "gameOver (run cfg ps (evs @ [ev]))"
  shows "winnerText (run cfg ps (evs @ [ev])) =
           Some (if length (winners (run cfg ps (evs @ [ev]))) = 1
                 then winMessage (ps ! hd (winners (run cfg ps (evs @ [ev]))))
                        (int (topScore (run cfg ps (evs @ [ev]))))
                 else tieMessage)"
    and "1 \<le> length (winners (run cfg ps (evs @ [ev])))"
    and "gameOverDisplay (run cfg ps (evs @ [ev])) = Some ''flex''"
proof -
  let ?s' = "run cfg ps (evs @ [ev])"
  from step_ended [OF before] after obtain s2 where s2: "?s' = endGame s2"
    unfolding run_snoc by blast
  have pl: "players s2 = ps" using run_players [of cfg ps "evs @ [ev]"] unfolding s2 by simp
  have sc: "\<forall>i<length (players s2). scores s2 i \<noteq> None"
    using run_scores_dom [of _ ps cfg "evs @ [ev]"] unfolding s2 pl by simp
  from ne pl have ne2: "players s2 \<noteq> []" by simp
  have eq: "winners ?s' = winners s2" "topScore ?s' = topScore s2"
    unfolding s2 by (rule winners_cong; simp)+
  show "winnerText ?s' =
           Some (if length (winners ?s') = 1
                 then winMessage (ps ! hd (winners ?s')) (int (topScore ?s'))
                 else tieMessage)"
    unfolding eq unfolding s2 using endGame_winnerText(1) [OF ne2 sc] pl by simp
  show "1 \<le> length (winners ?s')"
    unfolding eq by (rule endGame_winnerText(2) [OF ne2 sc])
  show "gameOverDisplay ?s' = Some ''flex''"
    unfolding s2 by (rule endGame_display)
qed

lemma createSession_fresh:
  "\<exists>s. createSession cfg ps = Inr s \<and> players s = ps \<and> edges s = {} \<and>
       boxes s = Map.empty \<and> (\<forall>i<length ps. scores s i = Some 0) \<and>
       currentPlayer s = 0 \<and> \<not> gameOver s"
proof -
  let ?s = "initGame cfg (initialState ps)"
  have "players ?s = ps" "edges ?s = {}" "boxes ?s = Map.empty" "currentPlayer ?s = 0"
    "\<not> gameOver ?s"
    by (simp_all add: initGame_def) (simp_all add: initialState_def)
  moreover have "\<forall>i<length ps. scores ?s i = Some 0"
    by (simp add: initGame_def zeroScores_scores) (simp add: initialState_def)
  ultimately show ?thesis unfolding createSession_def by blast
qed

section \<open>The claims\<close>

text \<open>
  C1. In every state that a session can reach on a grid with at least two rows and two
  columns of dots, the \<open>gameOver\<close> flag is set exactly when the number of drawn edges
  is the number of legal edges, \<open>(rows - 1) * cols + rows * (cols - 1)\<close>. The test sits
  on the branch where the move completed a box, and that is enough: an edge that
  fills the board always completes a box.
\<close>

theorem gameOver_iff_board_full:
  assumes "2 \<le> rows cfg" "2 \<le> cols cfg"
  shows "(gameOver (run cfg ps evs) \<longleftrightarrow>
            int (card (edges (run cfg ps evs))) = totalPossibleEdges cfg) \<and>
         (\<forall>e. legalEdge cfg e \<and> edgeKey e \<notin> edges (run cfg ps evs) \<and>
               int (card (insert (edgeKey e) (edges (run cfg ps evs)))) = totalPossibleEdges cfg
               \<longrightarrow> checkForCompletedBoxes cfg
                     ((run cfg ps evs)\<lparr>edges := insert (edgeKey e) (edges (run cfg ps evs))\<rparr>) e
                   \<noteq> [])"
  using run_gameOver_iff [OF assms] last_edge_completes [OF run_inv _ assms] by blast

theorem gameOver_iff_board_full_witness:
  "2 \<le> rows grid2x2 \<and> 2 \<le> cols grid2x2 \<and>
   gameOver (run grid2x2 [''A'', ''B''] fourClicks) \<and>
   int (card (edges (run grid2x2 [''A'', ''B''] fourClicks))) = totalPossibleEdges grid2x2 \<and>
   \<not> gameOver (run grid2x2 [''A'', ''B''] (butlast fourClicks)) \<and>
   int (card (edges (run grid2x2 [''A'', ''B''] (butlast fourClicks)))) \<noteq> totalPossibleEdges grid2x2"
proof -
  have r: "2 \<le> rows grid2x2" and c: "2 \<le> cols grid2x2"
    by (simp_all add: grid2x2_def)
  have 1: "gameOver (run grid2x2 [''A'', ''B''] fourClicks)"
    by code_simp
  have 2: "\<not> gameOver (run grid2x2 [''A'', ''B''] (butlast fourClicks))"
    by code_simp
  from gameOver_iff_board_full [OF r c, of "[''A'', ''B'']" fourClicks]
    gameOver_iff_board_full [OF r c, of "[''A'', ''B'']" "butlast fourClicks"] r c 1 2
  show ?thesis by blast
qed

text \<open>
  C10. Hovering never changes the game: for every pointer position and every state,
  \<open>handleMouseMove\<close> returns the state it was given with at most \<open>highlightedEdge\<close>
  rewritten; the drawn edges, the box owners, the scores, the current player and the
  \<open>gameOver\<close> flag are as they were.
\<close>

theorem hover_changes_highlight_only:
  "handleMouseMove cfg ev s = s\<lparr>highlightedEdge := highlightedEdge (handleMouseMove cfg ev s)\<rparr> \<and>
   edges (handleMouseMove cfg ev s) = edges s \<and>
   boxes (handleMouseMove cfg ev s) = boxes s \<and>
   scores (handleMouseMove cfg ev s) = scores s \<and>
   currentPlayer (handleMouseMove cfg ev s) = currentPlayer s \<and>
   gameOver (handleMouseMove cfg ev s) = gameOver s"
proof -
  have frame: "handleMouseMove cfg ev s = s\<lparr>highlightedEdge := highlightedEdge (handleMouseMove cfg ev s)\<rparr>"
    by (rule handleMouseMove_frame)
  have "edges (handleMouseMove cfg ev s) = edges s"
    "boxes (handleMouseMove cfg ev s) = boxes s"
    "scores (handleMouseMove cfg ev s) = scores s"
    "currentPlayer (handleMouseMove cfg ev s) = currentPlayer s"
    "gameOver (handleMouseMove cfg ev s) = gameOver s"
    by (subst frame, simp)+
  with frame show ?thesis by blast
qed

text \<open>
  C5. A rejected move changes nothing at all. A click while \<open>gameOver\<close> is set, a click
  on an edge that is already drawn and a click that hits no edge each return the very
  same state. Clicking twice at the same place therefore gives the state that one
  click gives, so the second attempt leaves the number of drawn edges as it was.
\<close>

theorem rejected_click_changes_nothing:
  "(gameOver s \<longrightarrow> handleCanvasClick cfg ev s = s) \<and>
   (\<forall>e. findNearestEdge cfg s (clientX ev - rectLeft ev) (clientY ev - rectTop ev) = Some e \<and>
        edgeKey e \<in> edges s \<longrightarrow> handleCanvasClick cfg ev s = s) \<and>
   (findNearestEdge cfg s (clientX ev - rectLeft ev) (clientY ev - rectTop ev) = None \<longrightarrow>
      handleCanvasClick cfg ev s = s) \<and>
   handleCanvasClick cfg ev (handleCanvasClick cfg ev s) = handleCanvasClick cfg ev s \<and>
   card (edges (handleCanvasClick cfg ev (handleCanvasClick cfg ev s))) =
     card (edges (handleCanvasClick cfg ev s))"
  using handleCanvasClick_gameOver [of s cfg ev] handleCanvasClick_drawn [of cfg s ev]
    handleCanvasClick_no_edge [of cfg s ev] handleCanvasClick_twice [of cfg ev s]
  by simp

theorem rejected_click_changes_nothing_witness:
  "gameOver (run grid2x2 [''A'', ''B''] fourClicks) \<and>
   handleCanvasClick grid2x2 (pointerAt 20 50) (run grid2x2 [''A'', ''B''] fourClicks) =
     run grid2x2 [''A'', ''B''] fourClicks \<and>
   findNearestEdge grid2x2 (run grid2x2 [''A'', ''B''] [Click (pointerAt 20 50)])
     (clientX (pointerAt 20 50) - rectLeft (pointerAt 20 50))
     (clientY (pointerAt 20 50) - rectTop (pointerAt 20 50)) =
     Some \<lparr>r1 = 0, c1 = 0, r2 = 0, c2 = 1, isHorizontal = True\<rparr> \<and>
   edgeKey \<lparr>r1 = 0, c1 = 0, r2 = 0, c2 = 1, isHorizontal = True\<rparr> \<in>
     edges (run grid2x2 [''A'', ''B''] [Click (pointerAt 20 50)]) \<and>
   handleCanvasClick grid2x2 (pointerAt 20 50)
     (run grid2x2 [''A'', ''B''] [Click (pointerAt 20 50)]) =
     run grid2x2 [''A'', ''B''] [Click (pointerAt 20 50)] \<and>
   findNearestEdge grid2x2 (run grid2x2 [''A'', ''B''] [])
     (clientX (pointerAt 65 95) - rectLeft (pointerAt 65 95))
     (clientY (pointerAt 65 95) - rectTop (pointerAt 65 95)) = None \<and>
   handleCanvasClick grid2x2 (pointerAt 65 95) (run grid2x2 [''A'', ''B''] []) =
     run grid2x2 [''A'', ''B''] []"
proof -
  let ?e = "\<lparr>r1 = 0, c1 = 0, r2 = 0, c2 = 1, isHorizontal = True\<rparr>"
  have 1: "gameOver (run grid2x2 [''A'', ''B''] fourClicks)"
    by code_simp
  have 2: "findNearestEdge grid2x2 (run grid2x2 [''A'', ''B''] [Click (pointerAt 20 50)])
     (clientX (pointerAt 20 50) - rectLeft (pointerAt 20 50))
     (clientY (pointerAt 20 50) - rectTop (pointerAt 20 50)) = Some ?e"
    by code_simp
  have 3: "edgeKey ?e \<in> edges (run grid2x2 [''A'', ''B''] [Click (pointerAt 20 50)])"
    by code_simp
  have 4: "findNearestEdge grid2x2 (run grid2x2 [''A'', ''B''] [])
     (clientX (pointerAt 65 95) - rectLeft (pointerAt 65 95))
     (clientY (pointerAt 65 95) - rectTop (pointerAt 65 95)) = None"
    by code_simp
  from 1 2 3 4
    rejected_click_changes_nothing [of "run grid2x2 [''A'', ''B''] fourClicks" grid2x2 "pointerAt 20 50"]
    rejected_click_changes_nothing [of "run grid2x2 [''A'', ''B''] [Click (pointerAt 20 50)]" grid2x2 "pointerAt 20 50"]
    rejected_click_changes_nothing [of "run grid2x2 [''A'', ''B''] []" grid2x2 "pointerAt 65 95"]
  show ?thesis by blast
qed

text \<open>
  C3. A successful move is a click, while the game is running, on an edge that is not
  drawn yet. If no cell became complete by it, the turn passes to the next player,
  \<open>(currentPlayer + 1) mod\<close> the number of players; if at least one cell became
  complete, the current player stays (also when that move ends the game).
\<close>

theorem turn_after_move:
  assumes "players s \<noteq> []" "\<not> gameOver s"
    and "findNearestEdge cfg s (clientX ev - rectLeft ev) (clientY ev - rectTop ev) = Some e"
    and "edgeKey e \<notin> edges s"
  shows "currentPlayer (handleCanvasClick cfg ev s) =
           (if {(i, j). isCell cfg i j \<and> cellComplete (handleCanvasClick cfg ev s) i j \<and>
                  \<not> cellComplete s i j} = {}
            then (currentPlayer s + 1) mod length (players s)
            else currentPlayer s)"
  unfolding handleCanvasClick_new [OF assms(2-4)]
    newly_completed [OF findNearestEdge_legal [OF assms(3)] assms(4)]
  by (simp add: drawEdge_currentPlayer)

theorem turn_after_move_witness:
  "players (run grid2x2 [''A'', ''B''] []) \<noteq> [] \<and>
   \<not> gameOver (run grid2x2 [''A'', ''B''] []) \<and>
   findNearestEdge grid2x2 (run grid2x2 [''A'', ''B''] [])
     (clientX (pointerAt 20 50) - rectLeft (pointerAt 20 50))
     (clientY (pointerAt 20 50) - rectTop (pointerAt 20 50)) =
     Some \<lparr>r1 = 0, c1 = 0, r2 = 0, c2 = 1, isHorizontal = True\<rparr> \<and>
   edgeKey \<lparr>r1 = 0, c1 = 0, r2 = 0, c2 = 1, isHorizontal = True\<rparr> \<notin>
     edges (run grid2x2 [''A'', ''B''] []) \<and>
   currentPlayer (run grid2x2 [''A'', ''B''] []) = 0 \<and>
   currentPlayer (handleCanvasClick grid2x2 (pointerAt 20 50) (run grid2x2 [''A'', ''B''] [])) = 1 \<and>
   {(i, j). isCell grid2x2 i j \<and>
      cellComplete (handleCanvasClick grid2x2 (pointerAt 20 50) (run grid2x2 [''A'', ''B''] [])) i j \<and>
      \<not> cellComplete (run grid2x2 [''A'', ''B''] []) i j} = {}"
proof -
  let ?e = "\<lparr>r1 = 0, c1 = 0, r2 = 0, c2 = 1, isHorizontal = True\<rparr>"
  let ?s = "run grid2x2 [''A'', ''B''] []"
  have 1: "players ?s \<noteq> []" by code_simp
  have 2: "\<not> gameOver ?s" by code_simp
  have 3: "findNearestEdge grid2x2 ?s
     (clientX (pointerAt 20 50) - rectLeft (pointerAt 20 50))
     (clientY (pointerAt 20 50) - rectTop (pointerAt 20 50)) = Some ?e"
    by code_simp
  have 4: "edgeKey ?e \<notin> edges ?s" by code_simp
  have 5: "currentPlayer ?s = 0" by code_simp
  have 6: "currentPlayer (handleCanvasClick grid2x2 (pointerAt 20 50) ?s) = 1" by code_simp
  have 7: "length (players ?s) = 2" by code_simp
  from turn_after_move [OF 1 2 3 4] have "{(i, j). isCell grid2x2 i j \<and>
      cellComplete (handleCanvasClick grid2x2 (pointerAt 20 50) ?s) i j \<and>
      \<not> cellComplete ?s i j} = {}"
    unfolding 5 6 7 by (simp split: if_splits)
  with 1 2 3 4 5 6 show ?thesis by blast
qed

text \<open>
  C6. In every state that a session with at least one player can reach, every player
  has a score and the scores add up to the number of entries of the box owners map.
  A reset brings both to nothing together: the sum is 0 and the map is empty.
\<close>

theorem scores_add_up_to_boxes:
  assumes "ps \<noteq> []"
  shows "(\<forall>i<length ps. scores (run cfg ps evs) i \<noteq> None) \<and>
         scoreSum (run cfg ps evs) = card (dom (boxes (run cfg ps evs))) \<and>
         scoreSum (resetGame (run cfg ps evs)) = 0 \<and>
         dom (boxes (resetGame (run cfg ps evs))) = {}"
  using assms run_inv [of cfg ps evs] run_scores_dom [of _ ps cfg evs]
  by (simp add: gameInv_def scoreSum_resetGame)

theorem scores_add_up_to_boxes_witness:
  "[''A'', ''B''] \<noteq> [] \<and>
   scores (run grid2x2 [''A'', ''B''] fourClicks) 0 = Some 0 \<and>
   scores (run grid2x2 [''A'', ''B''] fourClicks) 1 = Some 1 \<and>
   scoreSum (run grid2x2 [''A'', ''B''] fourClicks) = 1 \<and>
   card (dom (boxes (run grid2x2 [''A'', ''B''] fourClicks))) = 1"
proof -
  have 1: "scores (run grid2x2 [''A'', ''B''] fourClicks) 0 = Some 0"
    "scores (run grid2x2 [''A'', ''B''] fourClicks) 1 = Some 1"
    "length (players (run grid2x2 [''A'', ''B''] fourClicks)) = 2"
    by code_simp+
  have 2: "scoreSum (run grid2x2 [''A'', ''B''] fourClicks) = 1"
    by code_simp
  have ne: "[''A'', ''B''] \<noteq> []" by simp
  from scores_add_up_to_boxes [OF ne, of grid2x2 fourClicks] 1 2 show ?thesis by simp
qed

text \<open>
  C9. After any sequence of events of a session with at least one player, a reset
  gives back the state in which the session was created: no drawn edge, no owned box,
  every player's score 0, the first player to move and the game running. The whole
  state equals the fresh one, field by field, except for the two DOM properties that
  lie outside the game: the text left in \<open>winner-text\<close> and the hidden modal.
\<close>

theorem reset_restores_fresh_state:
  assumes "ps \<noteq> []"
  shows "resetGame (run cfg ps evs) =
           (initGame cfg (initialState ps))
             \<lparr>winnerText := winnerText (run cfg ps evs), gameOverDisplay := Some ''none''\<rparr> \<and>
         edges (resetGame (run cfg ps evs)) = {} \<and>
         boxes (resetGame (run cfg ps evs)) = Map.empty \<and>
         (\<forall>i<length ps. scores (resetGame (run cfg ps evs)) i = Some 0) \<and>
         currentPlayer (resetGame (run cfg ps evs)) = 0 \<and>
         \<not> gameOver (resetGame (run cfg ps evs))"
  by (intro conjI) (rule resetGame_run, simp_all add: resetGame_scores run_players)

theorem reset_restores_fresh_state_witness:
  "[''A'', ''B''] \<noteq> [] \<and>
   edges (run grid2x2 [''A'', ''B''] fourClicks) \<noteq> {} \<and>
   gameOver (run grid2x2 [''A'', ''B''] fourClicks) \<and>
   resetGame (run grid2x2 [''A'', ''B''] fourClicks) =
     (initGame grid2x2 (initialState [''A'', ''B'']))
       \<lparr>winnerText := winnerText (run grid2x2 [''A'', ''B''] fourClicks),
         gameOverDisplay := Some ''none''\<rparr> \<and>
   scores (resetGame (run grid2x2 [''A'', ''B''] fourClicks)) 1 = Some 0"
proof -
  have ne: "[''A'', ''B''] \<noteq> []" by simp
  have 1: "edges (run grid2x2 [''A'', ''B''] fourClicks) \<noteq> {}" by code_simp
  have 2: "gameOver (run grid2x2 [''A'', ''B''] fourClicks)" by code_simp
  have 3: "(1::nat) < length [''A'', ''B'']" by simp
  from reset_restores_fresh_state [OF ne, of grid2x2 fourClicks] ne 1 2 3 show ?thesis by blast
qed

text \<open>
  C2. In every state that a session with at least one player can reach, a cell of the
  grid has an entry in the box owners map exactly when its four sides are drawn, and
  the map has no other entries. An entry, once made, stays as it is through every
  later click, mouse move and resize; only a reset clears it.
\<close>

theorem box_owned_iff_complete:
  assumes "ps \<noteq> []"
  shows "(\<forall>i j. isCell cfg i j \<longrightarrow>
            (boxKeyOf i j \<in> dom (boxes (run cfg ps evs)) \<longleftrightarrow>
             cellComplete (run cfg ps evs) i j)) \<and>
         dom (boxes (run cfg ps evs)) \<subseteq> {boxKeyOf i j |i j. isCell cfg i j} \<and>
         (\<forall>evs' k p. Reset \<notin> set evs' \<and> boxes (run cfg ps evs) k = Some p \<longrightarrow>
            boxes (run cfg ps (evs @ evs')) k = Some p)"
  using run_boxes_iff [of cfg _ _ ps evs] run_boxes_cells [of cfg ps evs]
    fold_boxes_kept [OF run_inv [of cfg ps evs]]
  unfolding run_append by blast

theorem box_owned_iff_complete_witness:
  "[''A'', ''B''] \<noteq> [] \<and> isCell grid2x2 0 0 \<and>
   boxKeyOf 0 0 \<in> dom (boxes (run grid2x2 [''A'', ''B''] fourClicks)) \<and>
   cellComplete (run grid2x2 [''A'', ''B''] fourClicks) 0 0 \<and>
   boxKeyOf 0 0 \<notin> dom (boxes (run grid2x2 [''A'', ''B''] (butlast fourClicks))) \<and>
   \<not> cellComplete (run grid2x2 [''A'', ''B''] (butlast fourClicks)) 0 0 \<and>
   Reset \<notin> set [Click (pointerAt 20 50), MouseMove (pointerAt 20 50), Resize] \<and>
   boxes (run grid2x2 [''A'', ''B''] fourClicks) ''0,0'' = Some 1 \<and>
   boxes (run grid2x2 [''A'', ''B'']
     (fourClicks @ [Click (pointerAt 20 50), MouseMove (pointerAt 20 50), Resize])) ''0,0'' = Some 1"
proof -
  have ne: "[''A'', ''B''] \<noteq> []" by simp
  have c: "isCell grid2x2 0 0" by (simp add: isCell_def grid2x2_def)
  have 1: "cellComplete (run grid2x2 [''A'', ''B''] fourClicks) 0 0" by code_simp
  have 2: "\<not> cellComplete (run grid2x2 [''A'', ''B''] (butlast fourClicks)) 0 0" by code_simp
  have 3: "Reset \<notin> set [Click (pointerAt 20 50), MouseMove (pointerAt 20 50), Resize]" by simp
  have 4: "boxes (run grid2x2 [''A'', ''B''] fourClicks) ''0,0'' = Some 1" by code_simp
  from box_owned_iff_complete [OF ne, of grid2x2 fourClicks]
    box_owned_iff_complete [OF ne, of grid2x2 "butlast fourClicks"] c 1 2 3 4
  show ?thesis by blast
qed

text \<open>
  C8. On every grid with at least two rows and two columns of dots, the legal edges
  (horizontal ones from \<open>(r, c)\<close> to \<open>(r, c + 1)\<close> for \<open>0 \<le> r < rows\<close>,
  \<open>0 \<le> c < cols - 1\<close>, vertical ones from \<open>(r, c)\<close> to \<open>(r + 1, c)\<close> for
  \<open>0 \<le> r < rows - 1\<close>, \<open>0 \<le> c < cols\<close>) have pairwise different keys, and their
  number is \<open>(rows - 1) * cols + rows * (cols - 1)\<close>, the number that \<open>isGameOver\<close>
  compares the drawn edges with. These are the edges of the game: every edge that a
  click can find is one of them, and, when the dots are more than 30 pixels apart,
  each of them is found by some click.
\<close>

theorem legal_edge_count:
  assumes "2 \<le> rows cfg" "2 \<le> cols cfg"
  shows "distinct (legalEdgeKeys cfg) \<and>
         int (length (legalEdgeKeys cfg)) = totalPossibleEdges cfg \<and>
         int (card (set (legalEdgeKeys cfg))) = totalPossibleEdges cfg \<and>
         (\<forall>s x y e. findNearestEdge cfg s x y = Some e \<longrightarrow>
            edgeKey e \<in> set (legalEdgeKeys cfg)) \<and>
         (30 < cellSize cfg \<longrightarrow>
            (\<forall>s. \<forall>k \<in> set (legalEdgeKeys cfg).
               \<exists>x y e. findNearestEdge cfg s x y = Some e \<and> edgeKey e = k)) \<and>
         (\<forall>s. isGameOver cfg s \<longleftrightarrow>
            int (card (edges s)) \<ge> int (card (set (legalEdgeKeys cfg))))"
proof -
  have c: "int (card (set (legalEdgeKeys cfg))) = totalPossibleEdges cfg"
    using assms by (intro card_legalEdgeKeys) simp_all
  have d: "distinct (legalEdgeKeys cfg)" by (rule distinct_legalEdgeKeys)
  from c d have l: "int (length (legalEdgeKeys cfg)) = totalPossibleEdges cfg"
    by (simp add: distinct_card)
  have f: "\<forall>s x y e. findNearestEdge cfg s x y = Some e \<longrightarrow>
            edgeKey e \<in> set (legalEdgeKeys cfg)"
    using findNearestEdge_legal legalEdge_key by blast
  have g: "30 < cellSize cfg \<longrightarrow>
            (\<forall>s. \<forall>k \<in> set (legalEdgeKeys cfg).
               \<exists>x y e. findNearestEdge cfg s x y = Some e \<and> edgeKey e = k)"
    using legal_key_clickable by blast
  have h: "\<forall>s. isGameOver cfg s \<longleftrightarrow>
            int (card (edges s)) \<ge> int (card (set (legalEdgeKeys cfg)))"
    unfolding c by (simp add: isGameOver_def)
  from c d l f g h show ?thesis by blast
qed

theorem legal_edge_count_witness:
  "2 \<le> rows grid2x3 \<and> 2 \<le> cols grid2x3 \<and> 30 < cellSize grid2x3 \<and>
   legalEdgeKeys grid2x3 =
     [''0,0:0,1'', ''0,1:0,2'', ''1,0:1,1'', ''1,1:1,2'', ''0,0:1,0'', ''0,1:1,1'', ''0,2:1,2''] \<and>
   totalPossibleEdges grid2x3 = 7 \<and>
   int (card (set (legalEdgeKeys grid2x3))) = totalPossibleEdges grid2x3 \<and>
   findNearestEdge grid2x3 (run grid2x3 [''A'', ''B''] []) 200 80 =
     Some \<lparr>r1 = 0, c1 = 2, r2 = 1, c2 = 2, isHorizontal = False\<rparr> \<and>
   edgeKey \<lparr>r1 = 0, c1 = 2, r2 = 1, c2 = 2, isHorizontal = False\<rparr> \<in>
     set (legalEdgeKeys grid2x3) \<and>
   ''0,1:1,1'' \<in> set (legalEdgeKeys grid2x3) \<and>
   (\<exists>x y e. findNearestEdge grid2x3 (run grid2x3 [''A'', ''B''] []) x y = Some e \<and>
      edgeKey e = ''0,1:1,1'')"
proof -
  have r: "2 \<le> rows grid2x3" and c: "2 \<le> cols grid2x3" and z: "30 < cellSize grid2x3"
    by (simp_all add: grid2x3_def)
  have 1: "legalEdgeKeys grid2x3 =
     [''0,0:0,1'', ''0,1:0,2'', ''1,0:1,1'', ''1,1:1,2'', ''0,0:1,0'', ''0,1:1,1'', ''0,2:1,2'']"
    by code_simp
  have 2: "totalPossibleEdges grid2x3 = 7"
    by (simp add: totalPossibleEdges_def grid2x3_def)
  have 3: "findNearestEdge grid2x3 (run grid2x3 [''A'', ''B''] []) 200 80 =
     Some \<lparr>r1 = 0, c1 = 2, r2 = 1, c2 = 2, isHorizontal = False\<rparr>"
    by code_simp
  have 4: "''0,1:1,1'' \<in> set (legalEdgeKeys grid2x3)"
    unfolding 1 by simp
  from legal_edge_count [OF r c] r c z 1 2 3 4 show ?thesis by blast
qed

text \<open>
  C4, as the code has it. When a move ends the game of a session with at least one
  player, the report is computed from the highest score and from the players who
  have it (there is always at least one). If exactly one player has the highest
  score, the text names that player and the score; if more than one has it, the text
  is the fixed message \<open>It's a tie!\<close>, which does not say who is tied.
\<close>

theorem winner_report:
  assumes "ps \<noteq> []" "\<not> gameOver (run cfg ps evs)" "gameOver (run cfg ps (evs @ [ev]))"
  shows "winnerText (run cfg ps (evs @ [ev])) =
           Some (if length (winners (run cfg ps (evs @ [ev]))) = 1
                 then winMessage (ps ! hd (winners (run cfg ps (evs @ [ev]))))
                        (int (topScore (run cfg ps (evs @ [ev]))))
                 else tieMessage) \<and>
         1 \<le> length (winners (run cfg ps (evs @ [ev]))) \<and>
         gameOverDisplay (run cfg ps (evs @ [ev])) = Some ''flex'' \<and>
         (\<forall>i<length ps. scoreOf (run cfg ps (evs @ [ev])) i \<le> topScore (run cfg ps (evs @ [ev]))) \<and>
         set (winners (run cfg ps (evs @ [ev]))) =
           {i. i < length ps \<and>
               scoreOf (run cfg ps (evs @ [ev])) i = topScore (run cfg ps (evs @ [ev]))}"
proof -
  have "\<forall>i<length ps. scoreOf (run cfg ps (evs @ [ev])) i \<le> topScore (run cfg ps (evs @ [ev]))"
    using topScore_upper [of _ "run cfg ps (evs @ [ev])"] by (simp add: run_players)
  moreover have "set (winners (run cfg ps (evs @ [ev]))) =
           {i. i < length ps \<and>
               scoreOf (run cfg ps (evs @ [ev])) i = topScore (run cfg ps (evs @ [ev]))}"
    by (simp add: set_winners run_players)
  ultimately show ?thesis
    using run_end_report [OF assms] by blast
qed

theorem winner_report_witness:
  "[''A'', ''B''] \<noteq> [] \<and>
   \<not> gameOver (run grid2x2 [''A'', ''B''] (butlast fourClicks)) \<and>
   gameOver (run grid2x2 [''A'', ''B''] (butlast fourClicks @ [Click (pointerAt 110 80)])) \<and>
   winners (run grid2x2 [''A'', ''B''] (butlast fourClicks @ [Click (pointerAt 110 80)])) = [1] \<and>
   winnerText (run grid2x2 [''A'', ''B''] (butlast fourClicks @ [Click (pointerAt 110 80)])) =
     Some ''Player B wins with 1 points!'' \<and>
   \<not> gameOver (run grid2x3 [''A'', ''B''] (butlast middleLate)) \<and>
   gameOver (run grid2x3 [''A'', ''B''] (butlast middleLate @ [Click (pointerAt 200 80)])) \<and>
   winners (run grid2x3 [''A'', ''B''] (butlast middleLate @ [Click (pointerAt 200 80)])) = [0, 1] \<and>
   winnerText (run grid2x3 [''A'', ''B''] (butlast middleLate @ [Click (pointerAt 200 80)])) =
     Some tieMessage"
proof -
  let ?one = "run grid2x2 [''A'', ''B''] (butlast fourClicks @ [Click (pointerAt 110 80)])"
  let ?tie = "run grid2x3 [''A'', ''B''] (butlast middleLate @ [Click (pointerAt 200 80)])"
  have ne: "[''A'', ''B''] \<noteq> []" by simp
  have 1: "\<not> gameOver (run grid2x2 [''A'', ''B''] (butlast fourClicks))" by code_simp
  have 2: "gameOver ?one" by code_simp
  have 3: "winners ?one = [1]" by code_simp
  have 4: "winMessage ([''A'', ''B''] ! hd [1]) (int (topScore ?one)) = ''Player B wins with 1 points!''"
    by code_simp
  have 5: "\<not> gameOver (run grid2x3 [''A'', ''B''] (butlast middleLate))" by code_simp
  have 6: "gameOver ?tie" by code_simp
  have 7: "winners ?tie = [0, 1]" by code_simp
  from winner_report [OF ne 1 2] have a: "winnerText ?one = Some ''Player B wins with 1 points!''"
    unfolding 3 4 by simp
  from winner_report [OF ne 5 6] have b: "winnerText ?tie = Some tieMessage"
    unfolding 7 by simp
  from ne 1 2 3 5 6 7 a b show ?thesis by blast
qed

text \<open>
  C4 as the specification states it fails: the tied set is not kept. Two games of
  three players on the grid of two cells both end in a tie; in one the players B and
  C are tied, in the other A and C. Everything that \<open>endGame\<close> writes is the same in
  both.
\<close>

theorem winner_report_counterexample:
  "winners (run grid2x3 [''A'', ''B'', ''C''] middleLate) = [1, 2] \<and>
   winners (run grid2x3 [''A'', ''B'', ''C''] middleEarly) = [0, 2] \<and>
   winnerText (run grid2x3 [''A'', ''B'', ''C''] middleLate) = Some tieMessage \<and>
   winnerText (run grid2x3 [''A'', ''B'', ''C''] middleEarly) = Some tieMessage \<and>
   gameOverDisplay (run grid2x3 [''A'', ''B'', ''C''] middleLate) =
     gameOverDisplay (run grid2x3 [''A'', ''B'', ''C''] middleEarly) \<and>
   gameOver (run grid2x3 [''A'', ''B'', ''C''] middleLate) \<and>
   gameOver (run grid2x3 [''A'', ''B'', ''C''] middleEarly)"
  by code_simp

text \<open>
  C7, as the code has it. Creating a session never fails: for every grid, also one
  with fewer than two rows or columns of dots, and for every list of players, also
  one with fewer than two, \<open>initGame\<close> builds a session with no drawn edge, no owned
  box, score 0 for every player, the first player to move and the game running.
\<close>

theorem createSession_never_refuses:
  "\<exists>s. createSession cfg ps = Inr s \<and> players s = ps \<and> edges s = {} \<and>
       boxes s = Map.empty \<and> (\<forall>i<length ps. scores s i = Some 0) \<and>
       currentPlayer s = 0 \<and> \<not> gameOver s"
  by (rule createSession_fresh)

theorem createSession_never_refuses_witness:
  "(0::nat) < length [''A''] \<and>
   (\<exists>s. createSession grid1x2 [''A''] = Inr s \<and> scores s 0 = Some 0 \<and> \<not> gameOver s)"
proof -
  have "(0::nat) < length [''A'']" by simp
  with createSession_never_refuses [of grid1x2 "[''A'']"] show ?thesis by blast
qed

text \<open>
  C7 as the specification states it fails: a grid of one row of two dots, which has
  no cell, with a single player is not refused. The session is created and runs: a
  click draws its only edge, and the game never ends.
\<close>

theorem createSession_counterexample:
  "rows grid1x2 < 2 \<and> length [''A''] < 2 \<and>
   createSession grid1x2 [''A''] \<noteq> Inl ConfigurationError \<and>
   createSession grid1x2 [''A''] = Inr (run grid1x2 [''A''] []) \<and>
   edges (run grid1x2 [''A''] [Click (pointerAt 20 50)]) = {''0,0:0,1''} \<and>
   \<not> gameOver (run grid1x2 [''A''] [Click (pointerAt 20 50)])"
proof -
  have 1: "rows grid1x2 < 2" "length [''A''] < 2" by (simp_all add: grid1x2_def)
  have 2: "createSession grid1x2 [''A''] = Inr (run grid1x2 [''A''] [])"
    by (simp add: createSession_def run_def)
  have 3: "edges (run grid1x2 [''A''] [Click (pointerAt 20 50)]) = {''0,0:0,1''}"
    by code_simp
  have 4: "\<not> gameOver (run grid1x2 [''A''] [Click (pointerAt 20 50)])"
    by code_simp
  from 1 2 3 4 show ?thesis by simp
qed

end
